theory Spec2Isabelle
  imports Main "HOL-Library.AList" "HOL-Library.Multiset"
begin

section \<open>Architect: the dependency-driven service scheduler of src/architect.js\<close>

text \<open>
  The class \<^verbatim>\<open>Architect\<close> keeps a table of service declarations and four bookkeeping
  containers (\<^verbatim>\<open>awaiting\<close>, \<^verbatim>\<open>starting\<close>, \<^verbatim>\<open>resolved\<close>, \<^verbatim>\<open>ignored\<close>), and drives
  rounds over \<^verbatim>\<open>awaiting\<close> until everything has resolved or the run is rejected.

  Conventions of the embedding.
  \<^item> A JavaScript object used as a dictionary is a map, or an association list in the
    order of \<^verbatim>\<open>Object.keys\<close> where the code iterates over it. Service names and aliases
    are ordinary keys: neither members inherited from \<^verbatim>\<open>Object.prototype\<close> (which the
    operator \<^verbatim>\<open>in\<close> would find in an empty object) nor array-index strings (which
    \<^verbatim>\<open>Object.keys\<close> would reorder).
  \<^item> The promise made by \<^verbatim>\<open>execute\<close> is a field that is settled at most once: the
    functions \<^verbatim>\<open>resolve\<close> and \<^verbatim>\<open>reject\<close> of a JavaScript promise do nothing once it
    is settled.
  \<^item> What happens outside the class is an event: the value returned by a service's
    module is fulfilled or rejected, a startup timer fires, or some code calls the
    registry. The state holds which activations are in flight and which timers are
    armed, so an event is handled only when the runtime could deliver it.
  \<^item> Options (\<^verbatim>\<open>setOption\<close>, \<^verbatim>\<open>addOptions\<close>) play no part in scheduling and are left
    out; the timeouts are events, not durations.
\<close>

subsection \<open>Errors and values\<close>

datatype error =
    DuplicateService string
  | AlreadyStarted string
  | UnknownService string
  | AlreadyStarting string
  | NotDependent string
  | ReservedName string
  | IgnoredDependency string string
  | UnknownDependency string string
  | ModuleLoadError string error
  | ServiceStartupError string error
  | StartupTimeout string
  | CircularDependency "string list"
  | NotStarted
  | ShutdownTimeout
  | AlreadyExecuted
  | TypeError
  | Thrown string

text \<open>
  What a teardown action does when it is called: it returns a plain value, it returns a
  deferred value that the environment settles later, or it throws.
\<close>

datatype completion = Sync | Async | Raises error

text \<open>
  The instance a service produces: a falsy value, or a truthy one with a label and,
  when it has one, its \<^verbatim>\<open>shutdown\<close> property.
\<close>

datatype jsvalue = Falsy | Truthy string "completion option"

definition empty_object :: jsvalue where
  "empty_object = Truthy ''{}'' None"

text \<open>\<^verbatim>\<open>service || {}\<close>\<close>

fun or_empty :: "jsvalue \<Rightarrow> jsvalue" where
  "or_empty Falsy = empty_object"
| "or_empty v = v"

text \<open>\<^verbatim>\<open>service.shutdown || function () {}\<close>, applied to \<^verbatim>\<open>service || {}\<close>\<close>

fun shutdown_or_noop :: "jsvalue \<Rightarrow> completion" where
  "shutdown_or_noop (Truthy l (Some c)) = c"
| "shutdown_or_noop v = Sync"

subsection \<open>Service declarations\<close>

datatype deps = NoDeps | DepList "string list" | DepMap "(string \<times> string) list"

text \<open>
  The outcome of calling a module with \<^verbatim>\<open>(options, imports)\<close>: it throws, or it returns
  a value (plain or deferred) whose fulfilment or rejection is a later event.
\<close>

datatype outcome_of_call = Throws error | Returns

text \<open>
  A module is called with a handle on the registry (\<^verbatim>\<open>imports.__app__\<close>), so its
  behaviour is the list of registry calls it makes, in order, and then its outcome.
  \<^verbatim>\<open>required\<close> is what Node's \<^verbatim>\<open>require\<close> answers for the service's path.
\<close>

datatype call = AddService string service | AddDependency string string "string option"
and service = Service (dependencies: deps) (ignore: bool) (module: module_value)
    (path: "required option")
and module_value =
    Nullish
  | Falsy_primitive
  | Non_callable
  | Callable "call list" outcome_of_call
  | Es_module module_value
and required = Load_throws error | Exports module_value

fun truthy :: "module_value \<Rightarrow> bool" where
  "truthy Nullish = False"
| "truthy Falsy_primitive = False"
| "truthy m = True"

datatype imported = App_handle | Imported "jsvalue option"

datatype outcome = Pending | Resolved "(string \<times> jsvalue) list" | Rejected error

record state =
  services :: "string \<rightharpoonup> service"
  awaiting :: "string list"
  ignored :: "string list"
  starting :: "string set"
  resolved :: "(string \<times> jsvalue) list"
  teardown :: "(string \<times> completion) list"
  promise :: "outcome option"
  started :: bool
  executed :: bool
  inflight :: "string set"
  timers :: "string set"
  invoked :: "(string \<times> (string \<times> imported) list) list"

text \<open>
  The constructor. \<^verbatim>\<open>promise\<close> is \<^verbatim>\<open>null\<close> (\<open>None\<close>) until \<^verbatim>\<open>execute\<close>. The last three
  fields are the environment: the activations whose returned value is not settled yet,
  the armed startup timers, and the calls made to the modules with their imports.
\<close>

definition init :: "(string \<times> service) list \<Rightarrow> state" where
  "init config = \<lparr> services = map_of config, awaiting = map fst config, ignored = [],
     starting = {}, resolved = [], teardown = [], promise = None,
     started = False, executed = False, inflight = {}, timers = {}, invoked = [] \<rparr>"

subsection \<open>The promise of the run\<close>

text \<open>\<^verbatim>\<open>this.promise.resolve(x)\<close> and \<^verbatim>\<open>this.promise.reject(e)\<close>\<close>

fun is_pending :: "outcome option \<Rightarrow> bool" where
  "is_pending (Some Pending) = True"
| "is_pending p = False"

definition settle :: "outcome \<Rightarrow> state \<Rightarrow> state" where
  "settle out s = (if is_pending (promise s) then s\<lparr>promise := Some out\<rparr> else s)"

definition reject :: "error \<Rightarrow> state \<Rightarrow> state" where
  "reject e s = settle (Rejected e) s"

subsection \<open>Registry operations\<close>

definition makeDictionary :: "string list \<Rightarrow> (string \<times> string) list" where
  "makeDictionary array = fold (\<lambda>name. AList.update name name) array []"

definition addService :: "string \<Rightarrow> service \<Rightarrow> state \<Rightarrow> error + state" where
  "addService name spec s =
     (if services s name \<noteq> None then Inl (DuplicateService name)
      else if started s then Inl (AlreadyStarted name)
      else Inr (s\<lparr>services := (services s)(name \<mapsto> spec), awaiting := awaiting s @ [name]\<rparr>))"

text \<open>An alias is used when it is truthy: given and not the empty string.\<close>

fun alias_given :: "string option \<Rightarrow> bool" where
  "alias_given None = False"
| "alias_given (Some a) = (a \<noteq> [])"

definition alias_or :: "string option \<Rightarrow> string \<Rightarrow> string" where
  "alias_or alias dependency = (if alias_given alias then the alias else dependency)"

fun with_dependencies :: "deps \<Rightarrow> service \<Rightarrow> service" where
  "with_dependencies d (Service d0 i m p) = Service d i m p"

definition addDependency :: "string \<Rightarrow> string \<Rightarrow> string option \<Rightarrow> state \<Rightarrow> error + state" where
  "addDependency name dependency alias s =
     (case services s name of
        None \<Rightarrow> Inl (UnknownService name)
      | Some service \<Rightarrow>
          if name \<in> starting s then Inl (AlreadyStarting name)
          else (case dependencies service of
              NoDeps \<Rightarrow> Inl (NotDependent name)
            | DepList xs \<Rightarrow>
                Inr (s\<lparr>services := (services s)(name \<mapsto> with_dependencies
                  (if alias_given alias
                   then DepMap (AList.update (alias_or alias dependency) dependency (makeDictionary xs))
                   else DepList (xs @ [dependency])) service)\<rparr>)
            | DepMap m \<Rightarrow>
                Inr (s\<lparr>services := (services s)(name \<mapsto> with_dependencies
                  (DepMap (AList.update (alias_or alias dependency) dependency m)) service)\<rparr>)))"

fun do_call :: "call \<Rightarrow> state \<Rightarrow> error + state" where
  "do_call (AddService name spec) s = addService name spec s"
| "do_call (AddDependency name dependency alias) s = addDependency name dependency alias s"

text \<open>
  The registry calls of a module body, in order. The first one that throws ends the
  body with that exception; what the earlier calls did stays.
\<close>

fun run_calls :: "call list \<Rightarrow> state \<Rightarrow> error option \<times> state" where
  "run_calls [] s = (None, s)"
| "run_calls (c # cs) s =
     (case do_call c s of Inl e \<Rightarrow> (Some e, s) | Inr s' \<Rightarrow> run_calls cs s')"

subsection \<open>Constraints and the ignored set\<close>

fun getDependencyNames :: "service \<Rightarrow> string list" where
  "getDependencyNames (Service NoDeps i m p) = []"
| "getDependencyNames (Service (DepList xs) i m p) = xs"
| "getDependencyNames (Service (DepMap al) i m p) = map snd al"

fun checkNameConstraints :: "string list \<Rightarrow> error option" where
  "checkNameConstraints [] = None"
| "checkNameConstraints (name # names) =
     (if name = ''require'' then Some (ReservedName ''require'')
      else if name = ''requireDefault'' then Some (ReservedName ''requireDefault'')
      else checkNameConstraints names)"

text \<open>
  \<^verbatim>\<open>checkConstraints\<close>: the names in \<^verbatim>\<open>awaiting\<close> first, then the dependency names of each
  awaiting service. A name in \<^verbatim>\<open>awaiting\<close> without a declaration would make
  \<^verbatim>\<open>service.dependencies\<close> throw a \<^verbatim>\<open>TypeError\<close>.
\<close>

fun checkEach :: "(string \<rightharpoonup> service) \<Rightarrow> string list \<Rightarrow> error option" where
  "checkEach sv [] = None"
| "checkEach sv (name # names) =
     (case sv name of
        None \<Rightarrow> Some TypeError
      | Some service \<Rightarrow>
          (case checkNameConstraints (getDependencyNames service) of
             Some e \<Rightarrow> Some e
           | None \<Rightarrow> checkEach sv names))"

definition checkConstraints :: "state \<Rightarrow> error option" where
  "checkConstraints s =
     (case checkNameConstraints (awaiting s) of
        Some e \<Rightarrow> Some e
      | None \<Rightarrow> checkEach (services s) (awaiting s))"

text \<open>\<^verbatim>\<open>this.ignored[name] = 1\<close>: a key is listed once, where it was first set.\<close>

definition set_key :: "string \<Rightarrow> string list \<Rightarrow> string list" where
  "set_key name keys = (if name \<in> set keys then keys else keys @ [name])"

definition fillIgnored :: "state \<Rightarrow> state" where
  "fillIgnored s = s\<lparr>ignored := fold (\<lambda>name ig.
       case services s name of Some service \<Rightarrow> if ignore service then set_key name ig else ig
                             | None \<Rightarrow> ig)
     (awaiting s) (ignored s)\<rparr>"

text \<open>
  \<^verbatim>\<open>xs.splice(xs.indexOf(name), 1)\<close>: the first occurrence goes; when there is none,
  \<^verbatim>\<open>indexOf\<close> is -1 and \<^verbatim>\<open>splice(-1, 1)\<close> removes the last element.
\<close>

definition splice_indexOf :: "string \<Rightarrow> string list \<Rightarrow> string list" where
  "splice_indexOf name xs = (if name \<in> set xs then remove1 name xs else butlast xs)"

definition cleanAwaiting :: "state \<Rightarrow> state" where
  "cleanAwaiting s = s\<lparr>awaiting := fold splice_indexOf (ignored s) (awaiting s)\<rparr>"

subsection \<open>Eligibility\<close>

text \<open>\<^verbatim>\<open>key in object\<close>, for an object kept as an association list.\<close>

definition has_key :: "string \<Rightarrow> (string \<times> 'a) list \<Rightarrow> bool" where
  "has_key key object = (key \<in> set (map fst object))"

text \<open>The body of the \<^verbatim>\<open>forEach\<close> in \<^verbatim>\<open>checkDependencies\<close>, for one dependency.\<close>

definition check_one :: "string \<Rightarrow> string \<Rightarrow> bool \<times> state \<Rightarrow> bool \<times> state" where
  "check_one name dependency acc =
     (let ok = (fst acc \<and> has_key dependency (resolved (snd acc)));
          s1 = (if dependency \<in> set (ignored (snd acc))
                then reject (IgnoredDependency dependency name) (snd acc) else snd acc);
          s2 = (if services s1 dependency = None
                then reject (UnknownDependency dependency name) s1 else s1)
      in (ok, s2))"

definition no_dependencies :: "service \<Rightarrow> bool" where
  "no_dependencies service =
     (dependencies service = NoDeps \<or> dependencies service = DepList [])"

definition checkDependencies :: "string \<Rightarrow> service \<Rightarrow> state \<Rightarrow> bool \<times> state" where
  "checkDependencies name service s =
     (if no_dependencies service then (True, s)
      else fold (check_one name) (getDependencyNames service) (True, s))"

subsection \<open>Activation\<close>

text \<open>\<^verbatim>\<open>requireDefault\<close>, on what \<^verbatim>\<open>require\<close> answered; reading a property of
  \<^verbatim>\<open>undefined\<close> or \<^verbatim>\<open>null\<close> throws a \<^verbatim>\<open>TypeError\<close>.\<close>

fun requireDefault :: "required \<Rightarrow> required" where
  "requireDefault (Load_throws e) = Load_throws e"
| "requireDefault (Exports Nullish) = Load_throws TypeError"
| "requireDefault (Exports (Es_module d)) =
     (if truthy d then Exports d else Exports (Es_module d))"
| "requireDefault (Exports m) = Exports m"

text \<open>\<^verbatim>\<open>service.module || this.requireDefault(service.path)\<close>; with no path,
  \<^verbatim>\<open>modulePath[0]\<close> throws a \<^verbatim>\<open>TypeError\<close>.\<close>

definition load :: "service \<Rightarrow> required" where
  "load service =
     (if truthy (module service) then Exports (module service)
      else case path service of
             None \<Rightarrow> Load_throws TypeError
           | Some r \<Rightarrow> requireDefault r)"

definition obtainModule :: "string \<Rightarrow> service \<Rightarrow> state \<Rightarrow> module_value \<times> state" where
  "obtainModule name service s =
     (case load service of
        Load_throws e \<Rightarrow> (Nullish, reject (ModuleLoadError name e) s)
      | Exports m \<Rightarrow> (m, s))"

fun dependency_entries :: "service \<Rightarrow> (string \<times> string) list" where
  "dependency_entries (Service NoDeps i m p) = []"
| "dependency_entries (Service (DepList xs) i m p) = map (\<lambda>name. (name, name)) xs"
| "dependency_entries (Service (DepMap al) i m p) = al"

definition obtainDepenedcies :: "service \<Rightarrow> state \<Rightarrow> (string \<times> imported) list" where
  "obtainDepenedcies service s =
     fold (\<lambda>(alias, name). AList.update alias (Imported (map_of (resolved s) name)))
       (dependency_entries service) [(''__app__'', App_handle)]"

text \<open>
  The call \<^verbatim>\<open>serviceModule(options, imports)\<close> and \<^verbatim>\<open>register\<close>, inside the
  \<^verbatim>\<open>try\<close> of \<^verbatim>\<open>startService\<close>. Calling what is not a function throws a \<^verbatim>\<open>TypeError\<close>.
\<close>

fun invoke :: "string \<Rightarrow> (string \<times> imported) list \<Rightarrow> module_value \<Rightarrow> state \<Rightarrow> state" where
  "invoke name imports (Callable cs out) s =
     (case run_calls cs (s\<lparr>invoked := invoked s @ [(name, imports)]\<rparr>) of
        (Some e, s') \<Rightarrow> reject (ServiceStartupError name e) s'
      | (None, s') \<Rightarrow>
          (case out of
             Throws e \<Rightarrow> reject (ServiceStartupError name e) s'
           | Returns \<Rightarrow> s'\<lparr>inflight := insert name (inflight s')\<rparr>))"
| "invoke name imports m s = reject (ServiceStartupError name TypeError) s"

definition startService :: "string \<Rightarrow> service \<Rightarrow> state \<Rightarrow> state" where
  "startService name service s =
     (let imports = obtainDepenedcies service s in
      case obtainModule name service s of (serviceModule, s1) \<Rightarrow>
        if \<not> truthy serviceModule then s1
        else invoke name imports serviceModule
               (s1\<lparr>starting := insert name (starting s1),
                   awaiting := splice_indexOf name (awaiting s1),
                   timers := insert name (timers s1)\<rparr>))"

subsection \<open>Rounds\<close>

text \<open>
  The \<^verbatim>\<open>for\<close> loop of \<^verbatim>\<open>nextRound\<close>, from index \<open>i\<close> with \<open>n\<close> services started so
  far. It reads \<^verbatim>\<open>this.awaiting\<close> and \<^verbatim>\<open>this.services\<close> afresh at each step, so it
  sees what \<^verbatim>\<open>startService\<close> removed and what the modules added. The count is \<open>None\<close>
  when a name in \<^verbatim>\<open>awaiting\<close> has no declaration and \<^verbatim>\<open>service.dependencies\<close> throws a
  \<^verbatim>\<open>TypeError\<close>.
\<close>

function loop :: "nat \<Rightarrow> nat \<Rightarrow> state \<Rightarrow> nat option \<times> state" where
  "loop i n s =
     (if i < length (awaiting s) then
        (case services s (awaiting s ! i) of
           None \<Rightarrow> (None, s)
         | Some service \<Rightarrow>
             (case checkDependencies (awaiting s ! i) service s of
                (True, s1) \<Rightarrow> loop (Suc i) (Suc n) (startService (awaiting s ! i) service s1)
              | (False, s1) \<Rightarrow> loop (Suc i) n s1))
      else (Some n, s))"
  by pat_completeness auto

text \<open>The two checks at the end of \<^verbatim>\<open>nextRound\<close>.\<close>

definition round_end :: "nat \<Rightarrow> state \<Rightarrow> state" where
  "round_end startedInThisRound s =
     (if awaiting s = [] \<and> starting s = {}
      then settle (Resolved (resolved s)) (s\<lparr>started := True\<rparr>)
      else if startedInThisRound = 0 \<and> starting s = {}
      then reject (CircularDependency (awaiting s)) s
      else s)"

definition nextRound :: "state \<Rightarrow> error option \<times> state" where
  "nextRound s =
     (case loop 0 0 s of
        (None, s') \<Rightarrow> (Some TypeError, s')
      | (Some n, s') \<Rightarrow> (None, round_end n s'))"

subsection \<open>execute\<close>

text \<open>
  \<^verbatim>\<open>execute\<close> throws, or returns a promise that is already rejected (and leaves
  \<^verbatim>\<open>this.promise\<close> alone), or returns the promise of the run. An exception inside the
  executor of \<^verbatim>\<open>new Promise\<close> rejects that promise.
\<close>

datatype returned = Threw error | Rejected_promise error | Run_promise

definition execute :: "state \<Rightarrow> returned \<times> state" where
  "execute s =
     (if executed s then (Threw AlreadyExecuted, s)
      else case checkConstraints s of
        Some e \<Rightarrow> (Rejected_promise e, s)
      | None \<Rightarrow>
          (Run_promise,
           case nextRound ((cleanAwaiting (fillIgnored s))\<lparr>promise := Some Pending, executed := True\<rparr>) of
             (None, s') \<Rightarrow> s'
           | (Some e, s') \<Rightarrow> reject e s'))"

text \<open>The outcome of the promise that \<^verbatim>\<open>execute\<close> returned, read in a later state.\<close>

fun outcome_of :: "returned \<Rightarrow> state \<Rightarrow> outcome option" where
  "outcome_of (Threw e) s = None"
| "outcome_of (Rejected_promise e) s = Some (Rejected e)"
| "outcome_of Run_promise s = promise s"

subsection \<open>Events\<close>

text \<open>
  The callback that \<^verbatim>\<open>register\<close> passes to \<^verbatim>\<open>then\<close>; an exception in it goes to the
  \<^verbatim>\<open>catch\<close> that follows.
\<close>

definition complete :: "string \<Rightarrow> jsvalue \<Rightarrow> state \<Rightarrow> state" where
  "complete name v s =
     (case nextRound (s\<lparr>timers := timers s - {name},
                        starting := starting s - {name},
                        resolved := AList.update name (or_empty v) (resolved s),
                        teardown := AList.update name (shutdown_or_noop v) (teardown s)\<rparr>) of
        (None, s') \<Rightarrow> s'
      | (Some e, s') \<Rightarrow> reject (ServiceStartupError name e) s')"

datatype event = Fulfil string jsvalue | Fail string error | Timer string | Call call

text \<open>
  An event is handled when the runtime can deliver it: a settlement for an activation in
  flight, a timer that is armed. A registry call from outside a module throws to its
  caller and leaves the state as it was.
\<close>

fun fire :: "event \<Rightarrow> state \<Rightarrow> state" where
  "fire (Fulfil name v) s =
     (if name \<in> inflight s then complete name v (s\<lparr>inflight := inflight s - {name}\<rparr>) else s)"
| "fire (Fail name e) s =
     (if name \<in> inflight s
      then reject (ServiceStartupError name e) (s\<lparr>inflight := inflight s - {name}\<rparr>) else s)"
| "fire (Timer name) s =
     (if name \<in> timers s
      then reject (StartupTimeout name) (s\<lparr>timers := timers s - {name}\<rparr>) else s)"
| "fire (Call c) s = (case do_call c s of Inl e \<Rightarrow> s | Inr s' \<Rightarrow> s')"

definition run :: "event list \<Rightarrow> state \<Rightarrow> state" where
  "run evs s = fold fire evs s"

subsection \<open>shutdown\<close>

text \<open>
  The \<^verbatim>\<open>for ... in\<close> loop over \<^verbatim>\<open>this.teardown\<close>: the names whose action was called, in
  order, and the exception that ended the loop, if any.
\<close>

fun call_teardowns :: "(string \<times> completion) list \<Rightarrow> string list \<times> error option" where
  "call_teardowns [] = ([], None)"
| "call_teardowns ((name, Raises e) # rest) = ([name], Some e)"
| "call_teardowns ((name, c) # rest) =
     (case call_teardowns rest of (names, r) \<Rightarrow> (name # names, r))"

datatype shutdown_outcome = Shutdown_pending | Shutdown_done | Shutdown_failed error

record shutting =
  waiting :: "string set"
  result :: shutdown_outcome

text \<open>
  \<^verbatim>\<open>shutdown\<close> throws, or returns a promise over \<^verbatim>\<open>Promise.all\<close> of what the actions
  returned and a timer. With nothing deferred, \<^verbatim>\<open>Promise.all\<close> is fulfilled before any
  timer can fire.
\<close>

definition deferred :: "(string \<times> completion) list \<Rightarrow> string set" where
  "deferred td = set (map fst (filter (\<lambda>entry. snd entry = Async) td))"

definition shutdown :: "state \<Rightarrow> string list \<times> (error + shutting)" where
  "shutdown s =
     (if \<not> started s then ([], Inl NotStarted)
      else case call_teardowns (teardown s) of
        (names, Some e) \<Rightarrow> (names, Inl e)
      | (names, None) \<Rightarrow>
          (names, Inr \<lparr> waiting = deferred (teardown s),
                        result = (if deferred (teardown s) = {} then Shutdown_done
                                  else Shutdown_pending) \<rparr>))"

datatype shutdown_event = Teardown_fulfilled string | Teardown_rejected string error | Shutdown_timer

definition finish :: "shutdown_outcome \<Rightarrow> shutting \<Rightarrow> shutting" where
  "finish out sh = (if result sh = Shutdown_pending then sh\<lparr>result := out\<rparr> else sh)"

fun shutdown_fire :: "shutdown_event \<Rightarrow> shutting \<Rightarrow> shutting" where
  "shutdown_fire (Teardown_fulfilled name) sh =
     (if name \<in> waiting sh
      then (if waiting sh - {name} = {}
            then finish Shutdown_done (sh\<lparr>waiting := {}\<rparr>)
            else sh\<lparr>waiting := waiting sh - {name}\<rparr>)
      else sh)"
| "shutdown_fire (Teardown_rejected name e) sh =
     (if name \<in> waiting sh
      then finish (Shutdown_failed e) (sh\<lparr>waiting := waiting sh - {name}\<rparr>)
      else sh)"
| "shutdown_fire Shutdown_timer sh = finish (Shutdown_failed ShutdownTimeout) sh"

definition shutdown_run :: "shutdown_event list \<Rightarrow> shutting \<Rightarrow> shutting" where
  "shutdown_run evs sh = fold shutdown_fire evs sh"

subsection \<open>A measure for the loop of a round\<close>

text \<open>
  A module can add services while the loop runs, but only those written in its body:
  the weight of a declaration counts the declarations nested in it.
\<close>

primrec weight_call :: "call \<Rightarrow> nat"
  and weight_service :: "service \<Rightarrow> nat"
  and weight_module :: "module_value \<Rightarrow> nat"
  and weight_required :: "required \<Rightarrow> nat" where
  "weight_call (AddService name spec) = weight_service spec"
| "weight_call (AddDependency name dependency alias) = 0"
| "weight_service (Service d i m p) =
     Suc (weight_module m + (case map_option weight_required p of None \<Rightarrow> 0 | Some k \<Rightarrow> k))"
| "weight_module Nullish = 0"
| "weight_module Falsy_primitive = 0"
| "weight_module Non_callable = 0"
| "weight_module (Callable cs out) = sum_list (map weight_call cs)"
| "weight_module (Es_module d) = weight_module d"
| "weight_required (Load_throws e) = 0"
| "weight_required (Exports m) = weight_module m"

definition item :: "state \<Rightarrow> string \<Rightarrow> nat" where
  "item s name = (case services s name of None \<Rightarrow> 0 | Some service \<Rightarrow> weight_service service)"

subsection \<open>Scenarios\<close>

definition late_events_state :: state where
  "late_events_state = snd (execute (init
     [(''A'', Service (DepList [''X'']) False (Callable [] Returns) None),
      (''B'', Service NoDeps False (Callable [] Returns) None)]))"

subsection \<open>Bookkeeping invariants\<close>

text \<open>The keys of an object kept as an association list.\<close>

definition keys :: "(string \<times> 'a) list \<Rightarrow> string set" where
  "keys object = set (map fst object)"

definition consistent :: "state \<Rightarrow> bool" where
  "consistent s \<longleftrightarrow>
     distinct (awaiting s)
     \<and> set (awaiting s) \<inter> starting s = {}
     \<and> set (awaiting s) \<inter> keys (resolved s) = {}
     \<and> starting s \<inter> keys (resolved s) = {}
     \<and> inflight s \<subseteq> starting s
     \<and> set (awaiting s) \<union> starting s \<union> keys (resolved s) \<subseteq> dom (services s)"


definition disjoint_config :: "(string \<times> service) list" where
  "disjoint_config =
     [(''A'', Service (DepList [''B'']) False
         (Callable [AddService ''D'' (Service NoDeps True (Callable [] Returns) None)] Returns) None),
      (''B'', Service NoDeps False (Callable [] Returns) None)]"


subsection \<open>Configurations of the tests\<close>

text \<open>A module that makes no registry call and returns.\<close>

definition plain_module :: module_value where
  "plain_module = Callable [] Returns"

text \<open>Scenario D: \<open>A\<close> has no dependencies and \<open>B\<close> depends on \<open>A\<close>.\<close>

definition scenario_D :: "(string \<times> service) list" where
  "scenario_D =
     [(''A'', Service NoDeps False plain_module None),
      (''B'', Service (DepList [''A'']) False plain_module None)]"

definition started_D :: "jsvalue \<Rightarrow> jsvalue \<Rightarrow> state" where
  "started_D a b = run [Fulfil ''A'' a, Fulfil ''B'' b] (snd (execute (init scenario_D)))"

text \<open>
  The configuration of the test \<^emph>\<open>should throw an error if the service has been
  started\<close>, and the state when its timer callback runs: the three plain values have
  been fulfilled, in the order of their \<^verbatim>\<open>then\<close> callbacks.
\<close>

definition started_test_config :: "(string \<times> service) list" where
  "started_test_config =
     [(''serviceA'', Service NoDeps False plain_module None),
      (''serviceB'', Service (DepList [''serviceA'']) False plain_module None),
      (''serviceC'', Service NoDeps False plain_module None)]"

definition started_test_state :: state where
  "started_test_state =
     run [Fulfil ''serviceA'' (Truthy ''moduleA'' None),
          Fulfil ''serviceC'' (Truthy ''moduleC'' None),
          Fulfil ''serviceB'' (Truthy ''moduleB'' None)]
       (snd (execute (init started_test_config)))"



subsection \<open>States that differ in ignore flags only\<close>

fun with_ignore :: "bool \<Rightarrow> service \<Rightarrow> service" where
  "with_ignore b (Service d i m p) = Service d b m p"

definition clear_flags :: "state \<Rightarrow> state" where
  "clear_flags s = s\<lparr>services := (\<lambda>name. map_option (with_ignore False) (services s name))\<rparr>"

text \<open>
  A run in which a service is registered with \<^verbatim>\<open>ignore: true\<close> after \<^verbatim>\<open>execute\<close>: the
  state after the first round of a configuration with the single service \<open>A\<close>.
\<close>

definition first_round_state :: state where
  "first_round_state = snd (execute (init [(''A'', Service NoDeps False plain_module None)]))"

text \<open>The same state after a call of \<^verbatim>\<open>addService\<close> for \<open>D\<close> with the given flag.\<close>

definition flagged_state :: "bool \<Rightarrow> state" where
  "flagged_state b =
     fire (Call (AddService ''D'' (Service NoDeps b plain_module None))) first_round_state"

section \<open>The loop of a round terminates\<close>

lemma drop_remove1_early:
  "x \<in> set (take (Suc i) xs) \<Longrightarrow> drop (Suc i) (remove1 x xs) = drop (Suc (Suc i)) xs"
proof (induction xs arbitrary: i)
  case Nil
  then show ?case by simp
next
  case (Cons a xs)
  show ?case
  proof (cases "a = x")
    case True
    then show ?thesis by simp
  next
    case False
    with Cons.prems obtain j where j: "i = Suc j" "x \<in> set (take (Suc j) xs)"
      by (cases i) auto
    with Cons.IH [of j] False show ?thesis by simp
  qed
qed

lemma mset_drop_Suc_subset: "mset (drop (Suc i) xs) \<subseteq># mset (drop i xs)"
proof (cases "i < length xs")
  case True
  then have "drop i xs = xs ! i # drop (Suc i) xs" by (simp add: Cons_nth_drop_Suc)
  then show ?thesis by simp
next
  case False
  then show ?thesis by simp
qed

lemma mset_drop_append_subset: "mset (drop k (zs @ ns)) \<subseteq># mset (drop k zs) + mset ns"
proof -
  have "mset (drop (k - length zs) ns) \<subseteq># mset ns"
    by (metis append_take_drop_id mset_subset_eq_add_right mset_append)
  then show ?thesis by (simp add: subset_mset.add_left_mono)
qed

lemma mult_shrink:
  assumes M: "M \<subseteq># image_mset g D + image_mset g Nw"
    and g: "\<And>n. n \<in># D \<Longrightarrow> g n = f n \<or> g n < (W::nat)"
    and new: "\<And>n. n \<in># Nw \<Longrightarrow> g n < W"
  shows "(M, add_mset W (image_mset f D)) \<in> mult {(x, y). x < y}"
proof -
  let ?S = "filter_mset (\<lambda>n. g n = f n) D" and ?C = "filter_mset (\<lambda>n. g n \<noteq> f n) D"
  let ?I = "image_mset f ?S"
  let ?J = "add_mset W (image_mset f ?C)"
  let ?K = "image_mset g ?C + image_mset g Nw"
  have D: "D = ?S + ?C" by simp
  have same: "image_mset g ?S = ?I" by (rule image_mset_cong) simp
  have "(?I + ?K, ?I + ?J) \<in> mult {(x, y). x < y}"
  proof (rule one_step_implies_mult)
    show "?J \<noteq> {#}" by simp
    show "\<forall>k\<in>#?K. \<exists>j\<in>#?J. (k, j) \<in> {(x, y). x < y}"
      using g new by auto
  qed
  moreover have "image_mset f D = ?I + image_mset f ?C"
    by (metis D image_mset_union)
  then have "?I + ?J = add_mset W (image_mset f D)" by simp
  moreover have "image_mset g D = image_mset g ?S + image_mset g ?C"
    by (metis D image_mset_union)
  then have "image_mset g D + image_mset g Nw = ?I + ?K"
    by (simp add: same)
  ultimately have big: "(image_mset g D + image_mset g Nw, add_mset W (image_mset f D))
      \<in> mult {(x, y). x < y}" by (simp add: add.assoc)
  show ?thesis
  proof (cases "M = image_mset g D + image_mset g Nw")
    case True
    with big show ?thesis by simp
  next
    case False
    with M have "M \<subset># image_mset g D + image_mset g Nw" by (simp add: subset_mset.less_le)
    then have "(M, image_mset g D + image_mset g Nw) \<in> mult {(x, y). x < y}"
      by (rule subset_implies_mult)
    moreover have "trans (mult {(x::nat, y). x < y})"
      by (rule trans_mult) (auto simp: trans_def)
    ultimately show ?thesis using big by (blast dest: transD)
  qed
qed

lemma settle_fields [simp]:
  "services (settle out s) = services s" "awaiting (settle out s) = awaiting s"
  "ignored (settle out s) = ignored s" "starting (settle out s) = starting s"
  "resolved (settle out s) = resolved s" "teardown (settle out s) = teardown s"
  "started (settle out s) = started s" "executed (settle out s) = executed s"
  "inflight (settle out s) = inflight s" "timers (settle out s) = timers s"
  "invoked (settle out s) = invoked s"
  by (simp_all add: settle_def)

lemma reject_fields [simp]:
  "services (reject e s) = services s" "awaiting (reject e s) = awaiting s"
  "ignored (reject e s) = ignored s" "starting (reject e s) = starting s"
  "resolved (reject e s) = resolved s" "teardown (reject e s) = teardown s"
  "started (reject e s) = started s" "executed (reject e s) = executed s"
  "inflight (reject e s) = inflight s" "timers (reject e s) = timers s"
  "invoked (reject e s) = invoked s"
  by (simp_all add: reject_def)

lemma item_settle [simp]: "item (settle out s) = item s" "item (reject e s) = item s"
  by (simp_all add: item_def fun_eq_iff)

lemma weight_with_dependencies [simp]:
  "weight_service (with_dependencies d service) = weight_service service"
  by (cases service) simp

lemma do_call_delta:
  assumes "do_call c s = Inr s'"
  shows "\<exists>ns. awaiting s' = awaiting s @ ns \<and> (\<forall>n\<in>set ns. item s' n \<le> weight_call c)
           \<and> (\<forall>n. item s' n = item s n \<or> item s' n \<le> weight_call c)"
proof (cases c)
  case (AddService name spec)
  with assms show ?thesis
    by (auto simp: addService_def item_def split: if_splits option.splits)
next
  case (AddDependency name dependency al)
  with assms have "awaiting s' = awaiting s" "\<forall>n. item s' n = item s n"
    by (auto simp: addDependency_def item_def split: option.splits if_splits deps.splits)
  then show ?thesis by simp
qed

lemma run_calls_delta:
  "run_calls cs s = (r, s') \<Longrightarrow>
     \<exists>ns. awaiting s' = awaiting s @ ns
       \<and> (\<forall>n\<in>set ns. item s' n \<le> sum_list (map weight_call cs))
       \<and> (\<forall>n. item s' n = item s n \<or> item s' n \<le> sum_list (map weight_call cs))"
proof (induction cs arbitrary: s)
  case Nil
  then show ?case by simp
next
  case (Cons c cs)
  show ?case
  proof (cases "do_call c s")
    case (Inl e)
    with Cons.prems show ?thesis by simp
  next
    case (Inr s1)
    with Cons.prems have "run_calls cs s1 = (r, s')" by simp
    from Cons.IH [OF this] obtain ns' where ns':
      "awaiting s' = awaiting s1 @ ns'"
      "\<forall>n\<in>set ns'. item s' n \<le> sum_list (map weight_call cs)"
      "\<forall>n. item s' n = item s1 n \<or> item s' n \<le> sum_list (map weight_call cs)"
      by blast
    from do_call_delta [OF Inr] obtain ns1 where ns1:
      "awaiting s1 = awaiting s @ ns1"
      "\<forall>n\<in>set ns1. item s1 n \<le> weight_call c"
      "\<forall>n. item s1 n = item s n \<or> item s1 n \<le> weight_call c"
      by blast
    have a: "awaiting s' = awaiting s @ (ns1 @ ns')" using ns' ns1 by simp
    have b: "\<forall>n. item s' n = item s n \<or> item s' n \<le> sum_list (map weight_call (c # cs))"
    proof
      fix n
      from ns'(3) ns1(3) have "item s' n = item s1 n \<or> item s' n \<le> sum_list (map weight_call cs)"
        "item s1 n = item s n \<or> item s1 n \<le> weight_call c" by blast+
      then show "item s' n = item s n \<or> item s' n \<le> sum_list (map weight_call (c # cs))"
        by auto
    qed
    have c: "\<forall>n\<in>set (ns1 @ ns'). item s' n \<le> sum_list (map weight_call (c # cs))"
    proof
      fix n assume "n \<in> set (ns1 @ ns')"
      then consider "n \<in> set ns1" | "n \<in> set ns'" by auto
      then show "item s' n \<le> sum_list (map weight_call (c # cs))"
      proof cases
        case 1
        with ns1(2) have "item s1 n \<le> weight_call c" by blast
        moreover from ns'(3) have "item s' n = item s1 n \<or> item s' n \<le> sum_list (map weight_call cs)"
          by blast
        ultimately show ?thesis by auto
      next
        case 2
        with ns'(2) show ?thesis by auto
      qed
    qed
    from a b c show ?thesis by blast
  qed
qed

lemma weight_requireDefault:
  "requireDefault r = Exports m \<Longrightarrow> weight_module m \<le> weight_required r"
  by (induction r rule: requireDefault.induct) (auto split: if_splits)

lemma weight_load: "load service = Exports m \<Longrightarrow> weight_module m < weight_service service"
proof (cases service)
  case (Service d i md p)
  assume "load service = Exports m"
  with Service show ?thesis
    by (auto simp: load_def split: if_splits option.splits dest: weight_requireDefault)
qed

lemma checkDependencies_frame:
  "services (snd (checkDependencies name service s)) = services s"
  "awaiting (snd (checkDependencies name service s)) = awaiting s"
proof -
  have "services (snd (fold (check_one name) ds acc)) = services (snd acc)
      \<and> awaiting (snd (fold (check_one name) ds acc)) = awaiting (snd acc)" for ds acc
    by (induction ds arbitrary: acc) (simp_all add: check_one_def Let_def)
  then show "services (snd (checkDependencies name service s)) = services s"
    "awaiting (snd (checkDependencies name service s)) = awaiting s"
    by (simp_all add: checkDependencies_def)
qed

lemma invoke_delta:
  "\<exists>ns. awaiting (invoke name imports m s) = awaiting s @ ns
     \<and> (\<forall>n\<in>set ns. item (invoke name imports m s) n \<le> weight_module m)
     \<and> (\<forall>n. item (invoke name imports m s) n = item s n
            \<or> item (invoke name imports m s) n \<le> weight_module m)"
proof (cases m)
  case (Callable cs out)
  let ?s0 = "s\<lparr>invoked := invoked s @ [(name, imports)]\<rparr>"
  obtain r s' where run: "run_calls cs ?s0 = (r, s')" by (cases "run_calls cs ?s0")
  have eq: "awaiting (invoke name imports m s) = awaiting s'"
    "item (invoke name imports m s) = item s'"
    using Callable run
    by (auto simp: item_def fun_eq_iff split: option.splits outcome_of_call.splits)
  have "item ?s0 = item s" "awaiting ?s0 = awaiting s" by (simp_all add: item_def fun_eq_iff)
  with run_calls_delta [OF run] eq Callable show ?thesis by simp
qed simp_all

lemma startService_delta:
  "\<exists>ns. (awaiting (startService name service s) = awaiting s @ ns
           \<or> awaiting (startService name service s) = splice_indexOf name (awaiting s) @ ns)
     \<and> (\<forall>n\<in>set ns. item (startService name service s) n < weight_service service)
     \<and> (\<forall>n. item (startService name service s) n = item s n
            \<or> item (startService name service s) n < weight_service service)"
proof (cases "load service")
  case (Load_throws e)
  then have "startService name service s = reject (ModuleLoadError name e) s"
    by (simp add: startService_def obtainModule_def)
  then show ?thesis by (intro exI [of _ "[]"]) simp
next
  case (Exports m)
  show ?thesis
  proof (cases "truthy m")
    case False
    with Exports have "startService name service s = s"
      by (simp add: startService_def obtainModule_def)
    then show ?thesis by (intro exI [of _ "[]"]) simp
  next
    case True
    let ?s1 = "s\<lparr>starting := insert name (starting s),
                 awaiting := splice_indexOf name (awaiting s),
                 timers := insert name (timers s)\<rparr>"
    let ?r = "invoke name (obtainDepenedcies service s) m ?s1"
    have r: "startService name service s = ?r"
      using Exports True by (simp add: startService_def obtainModule_def)
    have s1: "item ?s1 = item s" "awaiting ?s1 = splice_indexOf name (awaiting s)"
      by (simp_all add: item_def fun_eq_iff)
    from invoke_delta [of name "obtainDepenedcies service s" m ?s1] obtain ns where ns:
      "awaiting ?r = awaiting ?s1 @ ns"
      "\<forall>n\<in>set ns. item ?r n \<le> weight_module m"
      "\<forall>n. item ?r n = item ?s1 n \<or> item ?r n \<le> weight_module m"
      by blast
    have lt: "weight_module m < weight_service service" by (rule weight_load [OF Exports])
    show ?thesis
      unfolding r using ns lt unfolding s1
      by (intro exI [of _ ns]) (auto intro: le_less_trans)
  qed
qed

lemma loop_decreases:
  assumes i: "i < length (awaiting s)"
    and sv: "services s (awaiting s ! i) = Some service"
    and s1: "services s1 = services s" "awaiting s1 = awaiting s"
    and s2: "s2 = s1 \<or> s2 = startService (awaiting s ! i) service s1"
  shows "(mset (map (item s2) (drop (Suc i) (awaiting s2))),
          mset (map (item s) (drop i (awaiting s)))) \<in> mult {(x, y). x < y}"
proof -
  let ?xs = "awaiting s" and ?name = "awaiting s ! i"
  let ?W = "weight_service service"
  let ?D = "mset (drop (Suc i) ?xs)"
  have items: "item s1 = item s" using s1 by (simp add: item_def fun_eq_iff)
  have W: "item s ?name = ?W" using sv by (simp add: item_def)
  have old: "mset (map (item s) (drop i ?xs)) = add_mset ?W (image_mset (item s) ?D)"
    using i W by (simp add: Cons_nth_drop_Suc [symmetric])
  have "\<exists>ns. mset (drop (Suc i) (awaiting s2)) \<subseteq># ?D + mset ns
      \<and> (\<forall>n\<in>set ns. item s2 n < ?W) \<and> (\<forall>n. item s2 n = item s n \<or> item s2 n < ?W)"
  proof -
    from s2 show ?thesis
    proof
      assume "s2 = s1"
      with s1 items show ?thesis by (intro exI [of _ "[]"]) simp
    next
      assume st: "s2 = startService ?name service s1"
      from startService_delta [of ?name service s1] obtain ns where ns:
        "awaiting s2 = ?xs @ ns \<or> awaiting s2 = splice_indexOf ?name ?xs @ ns"
        "\<forall>n\<in>set ns. item s2 n < ?W" "\<forall>n. item s2 n = item s n \<or> item s2 n < ?W"
        unfolding st [symmetric] s1 items by blast
      have "mset (drop (Suc i) (awaiting s2)) \<subseteq># ?D + mset ns"
        using ns(1)
      proof
        assume "awaiting s2 = ?xs @ ns"
        then show ?thesis by (simp only: mset_drop_append_subset)
      next
        assume a: "awaiting s2 = splice_indexOf ?name ?xs @ ns"
        have mem: "?name \<in> set (take (Suc i) ?xs)"
          using i by (simp add: take_Suc_conv_app_nth)
        then have "?name \<in> set ?xs" by (meson in_set_takeD)
        then have sp: "splice_indexOf ?name ?xs = remove1 ?name ?xs"
          by (simp add: splice_indexOf_def)
        have "mset (drop (Suc i) (awaiting s2))
            \<subseteq># mset (drop (Suc i) (remove1 ?name ?xs)) + mset ns"
          unfolding a sp by (rule mset_drop_append_subset)
        also have "drop (Suc i) (remove1 ?name ?xs) = drop (Suc (Suc i)) ?xs"
          by (rule drop_remove1_early [OF mem])
        also have "mset (drop (Suc (Suc i)) ?xs) + mset ns \<subseteq># ?D + mset ns"
          by (simp add: mset_drop_Suc_subset)
        finally show ?thesis .
      qed
      with ns(2,3) show ?thesis by blast
    qed
  qed
  then obtain ns where ns: "mset (drop (Suc i) (awaiting s2)) \<subseteq># ?D + mset ns"
    "\<forall>n\<in>set ns. item s2 n < ?W" "\<forall>n. item s2 n = item s n \<or> item s2 n < ?W"
    by blast
  have "(mset (map (item s2) (drop (Suc i) (awaiting s2))),
         add_mset ?W (image_mset (item s) ?D)) \<in> mult {(x, y). x < y}"
  proof (rule mult_shrink [where g = "item s2" and Nw = "mset ns"])
    have "image_mset (item s2) (mset (drop (Suc i) (awaiting s2)))
        \<subseteq># image_mset (item s2) (?D + mset ns)"
      by (rule image_mset_subseteq_mono [OF ns(1)])
    then show "mset (map (item s2) (drop (Suc i) (awaiting s2)))
        \<subseteq># image_mset (item s2) ?D + image_mset (item s2) (mset ns)"
      by simp
    show "item s2 n = item s n \<or> item s2 n < ?W" for n using ns(3) by blast
    show "item s2 n < ?W" if "n \<in># mset ns" for n using ns(2) that by simp
  qed
  with old show ?thesis by simp
qed

termination loop
proof (relation "inv_image (mult {(x, y). x < y})
    (\<lambda>(i, n, s). mset (map (item s) (drop i (awaiting s))))", goal_cases)
  case 1
  show ?case by (intro wf_inv_image wf_mult wf_less)
next
  case (2 i n s service x s1)
  then have "s1 = snd (checkDependencies (awaiting s ! i) service s)" by (metis snd_conv)
  then have "services s1 = services s" "awaiting s1 = awaiting s"
    by (simp_all add: checkDependencies_frame)
  with 2 show ?case
    using loop_decreases [of i s service s1 "startService (awaiting s ! i) service s1"]
    by simp
next
  case (3 i n s service x s1)
  then have "s1 = snd (checkDependencies (awaiting s ! i) service s)" by (metis snd_conv)
  then have "services s1 = services s" "awaiting s1 = awaiting s"
    by (simp_all add: checkDependencies_frame)
  with 3 show ?case
    using loop_decreases [of i s service s1 s1] by simp
qed

declare loop.simps [simp del]

lemma settle_promise:
  "promise (settle out s) = (if is_pending (promise s) then Some out else promise s)"
  by (simp add: settle_def)

lemma reject_promise:
  "promise (reject e s) = (if is_pending (promise s) then Some (Rejected e) else promise s)"
  by (simp add: reject_def settle_promise)

lemma not_pending_settled: "p = Some out \<Longrightarrow> out \<noteq> Pending \<Longrightarrow> \<not> is_pending p"
  by (cases out) simp_all

subsection \<open>An invariant rule for the loop\<close>

lemma loop_invariant:
  assumes start: "\<And>i s service s1. P s \<Longrightarrow> i < length (awaiting s) \<Longrightarrow>
        services s (awaiting s ! i) = Some service \<Longrightarrow>
        checkDependencies (awaiting s ! i) service s = (True, s1) \<Longrightarrow>
        P (startService (awaiting s ! i) service s1)"
    and skip: "\<And>i s service s1. P s \<Longrightarrow> i < length (awaiting s) \<Longrightarrow>
        services s (awaiting s ! i) = Some service \<Longrightarrow>
        checkDependencies (awaiting s ! i) service s = (False, s1) \<Longrightarrow> P s1"
  shows "P s \<Longrightarrow> P (snd (loop i n s))"
proof (induction i n s rule: loop.induct)
  case (1 i n s)
  show ?case
  proof (cases "i < length (awaiting s)")
    case False
    with "1.prems" show ?thesis by (subst loop.simps) simp
  next
    case i: True
    show ?thesis
    proof (cases "services s (awaiting s ! i)")
      case None
      with i "1.prems" show ?thesis by (subst loop.simps) simp
    next
      case (Some service)
      obtain ok s1 where chk: "checkDependencies (awaiting s ! i) service s = (ok, s1)"
        by (cases "checkDependencies (awaiting s ! i) service s")
      show ?thesis
      proof (cases ok)
        case True
        with chk have c: "checkDependencies (awaiting s ! i) service s = (True, s1)" by simp
        have "P (startService (awaiting s ! i) service s1)"
          by (rule start [OF "1.prems" i Some c])
        then have "P (snd (loop (Suc i) (Suc n) (startService (awaiting s ! i) service s1)))"
          using "1.IH"(1) [OF i Some c [symmetric]] by simp
        with i Some c show ?thesis by (subst loop.simps) simp
      next
        case False
        with chk have c: "checkDependencies (awaiting s ! i) service s = (False, s1)" by simp
        have "P s1" by (rule skip [OF "1.prems" i Some c])
        then have "P (snd (loop (Suc i) n s1))"
          using "1.IH"(2) [OF i Some c [symmetric]] by simp
        with i Some c show ?thesis by (subst loop.simps) simp
      qed
    qed
  qed
qed

subsection \<open>What the registry operations leave alone\<close>

lemma do_call_frame:
  assumes "do_call c s = Inr s'"
  shows "promise s' = promise s" "starting s' = starting s" "resolved s' = resolved s"
    "teardown s' = teardown s" "ignored s' = ignored s" "started s' = started s"
    "executed s' = executed s" "inflight s' = inflight s" "timers s' = timers s"
    "invoked s' = invoked s"
  using assms
  by (cases c; auto simp: addService_def addDependency_def
      split: if_splits option.splits deps.splits)+

lemma run_calls_frame:
  assumes "run_calls cs s = (r, s')"
  shows "promise s' = promise s \<and> starting s' = starting s \<and> resolved s' = resolved s
    \<and> teardown s' = teardown s \<and> ignored s' = ignored s \<and> started s' = started s
    \<and> executed s' = executed s \<and> inflight s' = inflight s \<and> timers s' = timers s
    \<and> invoked s' = invoked s"
  using assms
proof (induction cs arbitrary: s)
  case Nil
  then show ?case by simp
next
  case (Cons c cs)
  show ?case
  proof (cases "do_call c s")
    case (Inl e)
    with Cons.prems show ?thesis by simp
  next
    case (Inr s1)
    with Cons.prems have "run_calls cs s1 = (r, s')" by simp
    from Cons.IH [OF this] do_call_frame [OF Inr] show ?thesis by simp
  qed
qed

subsection \<open>A settled promise stays as it is\<close>

lemma check_one_promise:
  "\<not> is_pending (promise (snd acc)) \<Longrightarrow>
     promise (snd (check_one name dependency acc)) = promise (snd acc)"
  by (simp add: check_one_def Let_def reject_promise)

lemma checkDependencies_promise:
  assumes "\<not> is_pending (promise s)"
  shows "promise (snd (checkDependencies name service s)) = promise s"
proof -
  have "\<not> is_pending (promise (snd acc)) \<Longrightarrow>
      promise (snd (fold (check_one name) ds acc)) = promise (snd acc)" for ds acc
    by (induction ds arbitrary: acc) (simp_all add: check_one_promise)
  from this [of "(True, s)"] assms show ?thesis by (simp add: checkDependencies_def)
qed

lemma invoke_promise:
  assumes "\<not> is_pending (promise s)"
  shows "promise (invoke name imports m s) = promise s"
proof (cases m)
  case (Callable cs out)
  let ?s0 = "s\<lparr>invoked := invoked s @ [(name, imports)]\<rparr>"
  obtain r s' where run: "run_calls cs ?s0 = (r, s')" by (cases "run_calls cs ?s0")
  from run_calls_frame [OF run] have "promise s' = promise s" by simp
  with assms run Callable show ?thesis
    by (simp add: reject_promise split: option.splits outcome_of_call.splits)
qed (simp_all add: reject_promise assms)

lemma startService_promise:
  assumes "\<not> is_pending (promise s)"
  shows "promise (startService name service s) = promise s"
  using assms
  by (auto simp: startService_def obtainModule_def reject_promise invoke_promise
      split: required.splits)

lemma loop_promise:
  assumes "\<not> is_pending p" "promise s = p"
  shows "promise (snd (loop i n s)) = p"
proof (rule loop_invariant [where P = "\<lambda>s. promise s = p"])
  show "promise s = p" by (rule assms(2))
next
  fix i and s :: state and service s1
  assume "promise s = p" and "checkDependencies (awaiting s ! i) service s = (True, s1)"
  with checkDependencies_promise [of s "awaiting s ! i" service] assms(1)
  show "promise (startService (awaiting s ! i) service s1) = p"
    by (simp add: startService_promise)
next
  fix i and s :: state and service s1
  assume "promise s = p" and "checkDependencies (awaiting s ! i) service s = (False, s1)"
  with checkDependencies_promise [of s "awaiting s ! i" service] assms(1)
  show "promise s1 = p" by simp
qed

lemma round_end_promise:
  "\<not> is_pending (promise s) \<Longrightarrow> promise (round_end n s) = promise s"
  by (simp add: round_end_def settle_promise reject_promise)

lemma nextRound_promise:
  assumes "\<not> is_pending (promise s)"
  shows "promise (snd (nextRound s)) = promise s"
proof -
  obtain r s' where l: "loop 0 0 s = (r, s')" by (cases "loop 0 0 s")
  from loop_promise [OF assms refl, of 0 0] l have "promise s' = promise s" by simp
  with l assms show ?thesis
    by (simp add: nextRound_def round_end_promise split: option.splits)
qed

lemma complete_promise:
  assumes "\<not> is_pending (promise s)"
  shows "promise (complete name v s) = promise s"
proof -
  let ?s1 = "s\<lparr>timers := timers s - {name}, starting := starting s - {name},
      resolved := AList.update name (or_empty v) (resolved s),
      teardown := AList.update name (shutdown_or_noop v) (teardown s)\<rparr>"
  obtain r s' where n: "nextRound ?s1 = (r, s')" by (cases "nextRound ?s1")
  from nextRound_promise [of ?s1] assms n have "promise s' = promise s" by simp
  with n assms show ?thesis
    by (simp add: complete_def reject_promise split: option.splits)
qed

lemma fire_promise:
  assumes "\<not> is_pending (promise s)"
  shows "promise (fire ev s) = promise s"
proof (cases ev)
  case (Fulfil name v)
  with assms show ?thesis by (simp add: complete_promise)
next
  case (Fail name e)
  with assms show ?thesis by (simp add: reject_promise)
next
  case (Timer name)
  with assms show ?thesis by (simp add: reject_promise)
next
  case (Call c)
  with assms show ?thesis by (auto split: sum.splits dest: do_call_frame(1))
qed

lemma run_promise:
  "\<not> is_pending (promise s) \<Longrightarrow> promise (run evs s) = promise s"
  unfolding run_def by (induction evs arbitrary: s) (simp_all add: fire_promise)

text \<open>
  C4. Once the promise of the run is settled, with success or with a failure, nothing
  changes it: not a further \<^verbatim>\<open>resolve\<close> or \<^verbatim>\<open>reject\<close>, not the rest of the round
  in which it was settled or any later round, and not any sequence of later events
  (a timer that fires late, the completion or the failure of an activation that was
  left behind, a registry call).
\<close>

theorem settled_outcome_never_changes:
  assumes "promise s = Some out" and "out \<noteq> Pending"
  shows "promise (settle out' s) = Some out \<and> promise (reject e s) = Some out
    \<and> promise (snd (nextRound s)) = Some out \<and> promise (run evs s) = Some out"
proof -
  have np: "\<not> is_pending (promise s)" using assms by (rule not_pending_settled)
  then show ?thesis
    using assms(1) by (simp add: settle_promise reject_promise nextRound_promise run_promise)
qed

theorem settled_outcome_never_changes_witness:
  "promise late_events_state = Some (Rejected (UnknownDependency ''X'' ''A''))
   \<and> promise (snd (nextRound late_events_state)) = Some (Rejected (UnknownDependency ''X'' ''A''))
   \<and> promise (run [Timer ''B'', Fulfil ''B'' Falsy, Fail ''B'' TypeError] late_events_state)
       = Some (Rejected (UnknownDependency ''X'' ''A''))"
proof -
  have h: "promise late_events_state = Some (Rejected (UnknownDependency ''X'' ''A''))"
    by code_simp
  have n: "Rejected (UnknownDependency ''X'' ''A'') \<noteq> Pending" by simp
  from settled_outcome_never_changes [OF h n] h show ?thesis by simp
qed

section \<open>The bookkeeping sets stay disjoint\<close>

lemma keys_update [simp]: "keys (AList.update k v al) = insert k (keys al)"
  by (induction al) (auto simp: keys_def)

lemma consistent_promise [simp]:
  "consistent (s\<lparr>promise := p\<rparr>) = consistent s"
  "consistent (s\<lparr>started := b\<rparr>) = consistent s"
  "consistent (s\<lparr>invoked := l\<rparr>) = consistent s"
  "consistent (s\<lparr>ignored := ig\<rparr>) = consistent s"
  "consistent (s\<lparr>executed := b\<rparr>) = consistent s"
  "consistent (s\<lparr>timers := t\<rparr>) = consistent s"
  by (simp_all add: consistent_def)

lemma consistent_settle [simp]:
  "consistent (settle out s) = consistent s" "consistent (reject e s) = consistent s"
  by (simp_all add: settle_def reject_def)

lemma checkDependencies_fields:
  "ignored (snd (checkDependencies name service s)) = ignored s"
  "starting (snd (checkDependencies name service s)) = starting s"
  "resolved (snd (checkDependencies name service s)) = resolved s"
  "teardown (snd (checkDependencies name service s)) = teardown s"
  "started (snd (checkDependencies name service s)) = started s"
  "executed (snd (checkDependencies name service s)) = executed s"
  "inflight (snd (checkDependencies name service s)) = inflight s"
  "timers (snd (checkDependencies name service s)) = timers s"
  "invoked (snd (checkDependencies name service s)) = invoked s"
proof -
  have "ignored (snd (fold (check_one name) ds acc)) = ignored (snd acc)
      \<and> starting (snd (fold (check_one name) ds acc)) = starting (snd acc)
      \<and> resolved (snd (fold (check_one name) ds acc)) = resolved (snd acc)
      \<and> teardown (snd (fold (check_one name) ds acc)) = teardown (snd acc)
      \<and> started (snd (fold (check_one name) ds acc)) = started (snd acc)
      \<and> executed (snd (fold (check_one name) ds acc)) = executed (snd acc)
      \<and> inflight (snd (fold (check_one name) ds acc)) = inflight (snd acc)
      \<and> timers (snd (fold (check_one name) ds acc)) = timers (snd acc)
      \<and> invoked (snd (fold (check_one name) ds acc)) = invoked (snd acc)" for ds acc
    by (induction ds arbitrary: acc) (simp_all add: check_one_def Let_def)
  from this [of _ "(True, s)"] show
    "ignored (snd (checkDependencies name service s)) = ignored s"
    "starting (snd (checkDependencies name service s)) = starting s"
    "resolved (snd (checkDependencies name service s)) = resolved s"
    "teardown (snd (checkDependencies name service s)) = teardown s"
    "started (snd (checkDependencies name service s)) = started s"
    "executed (snd (checkDependencies name service s)) = executed s"
    "inflight (snd (checkDependencies name service s)) = inflight s"
    "timers (snd (checkDependencies name service s)) = timers s"
    "invoked (snd (checkDependencies name service s)) = invoked s"
    by (simp_all add: checkDependencies_def)
qed



















section \<open>Eligibility and its fatal conditions\<close>


lemma reject_twice: "reject e' (reject e s) = reject e s"
  by (cases "is_pending (promise s)") (simp_all add: reject_def settle_def)

lemma check_one_snd:
  "snd (check_one name d acc) =
     (if d \<in> set (ignored (snd acc)) then reject (IgnoredDependency d name) (snd acc)
      else if services (snd acc) d = None then reject (UnknownDependency d name) (snd acc)
      else snd acc)"
  by (simp add: check_one_def Let_def reject_twice)

lemma check_one_fst:
  "fst (check_one name d acc) = (fst acc \<and> has_key d (resolved (snd acc)))"
  by (simp add: check_one_def Let_def)






section \<open>Loading a module\<close>

lemma load_fails:
  assumes "\<not> truthy (module service)"
    and "path service = Some (Load_throws cause) \<or> path service = Some (Exports Nullish)
         \<or> path service = None"
  shows "load service = Load_throws
     (case path service of Some (Load_throws c) \<Rightarrow> c | _ \<Rightarrow> TypeError)"
  using assms by (auto simp: load_def)

text \<open>
  C7. When a service has no usable \<^verbatim>\<open>module\<close> and loading its path throws, or yields
  nothing (\<^verbatim>\<open>undefined\<close> or \<^verbatim>\<open>null\<close>, or there is no path at all, so that
  \<^verbatim>\<open>requireDefault\<close> itself throws a \<^verbatim>\<open>TypeError\<close>), activating it rejects the pending
  promise of the run with \<open>ModuleLoadError\<close>, carrying the service's name and the
  exception that was caught. The service is not started and its module is not called.
\<close>

theorem failed_load_rejects_with_ModuleLoadError:
  assumes "\<not> truthy (module service)"
    and "path service = Some (Load_throws cause) \<or> path service = Some (Exports Nullish)
         \<or> path service = None"
    and "is_pending (promise s)"
  shows "promise (startService name service s) =
       Some (Rejected (ModuleLoadError name
         (case path service of Some (Load_throws c) \<Rightarrow> c | _ \<Rightarrow> TypeError)))
     \<and> starting (startService name service s) = starting s
     \<and> awaiting (startService name service s) = awaiting s
     \<and> inflight (startService name service s) = inflight s
     \<and> invoked (startService name service s) = invoked s"
  using load_fails [OF assms(1,2)] assms(3)
  by (simp add: startService_def obtainModule_def reject_promise)

theorem failed_load_rejects_with_ModuleLoadError_witness:
  "promise (startService ''A''
       (Service NoDeps False Nullish (Some (Load_throws (Thrown ''Cannot find module''))))
       ((init [])\<lparr>promise := Some Pending\<rparr>))
     = Some (Rejected (ModuleLoadError ''A'' (Thrown ''Cannot find module'')))
   \<and> promise (startService ''A'' (Service NoDeps False Nullish (Some (Exports Nullish)))
       ((init [])\<lparr>promise := Some Pending\<rparr>))
     = Some (Rejected (ModuleLoadError ''A'' TypeError))"
  using failed_load_rejects_with_ModuleLoadError [of
      "Service NoDeps False Nullish (Some (Load_throws (Thrown ''Cannot find module'')))"
      "Thrown ''Cannot find module''" "(init [])\<lparr>promise := Some Pending\<rparr>" "''A''"]
    failed_load_rejects_with_ModuleLoadError [of
      "Service NoDeps False Nullish (Some (Exports Nullish))"
      TypeError "(init [])\<lparr>promise := Some Pending\<rparr>" "''A''"]
  by simp

text \<open>
  A path whose export is a falsy primitive (\<^verbatim>\<open>0\<close>, \<^verbatim>\<open>''\<close>, \<^verbatim>\<open>false\<close>, \<^verbatim>\<open>NaN\<close>) is not
  an exception and not nothing: \<^verbatim>\<open>startService\<close> returns at \<^verbatim>\<open>if (!serviceModule)\<close> and
  changes nothing.
\<close>

lemma falsy_primitive_is_skipped:
  "startService name (Service d i Nullish (Some (Exports Falsy_primitive))) s = s"
  by (simp add: startService_def obtainModule_def load_def)

section \<open>Reserved names\<close>







section \<open>addDependency\<close>

lemma addDependency_errors:
  "services s name = None \<Longrightarrow> addDependency name d a s = Inl (UnknownService name)"
  "services s name = Some service \<Longrightarrow> name \<in> starting s \<Longrightarrow>
     addDependency name d a s = Inl (AlreadyStarting name)"
  "services s name = Some service \<Longrightarrow> name \<notin> starting s \<Longrightarrow>
     dependencies service = NoDeps \<Longrightarrow> addDependency name d a s = Inl (NotDependent name)"
  by (simp_all add: addDependency_def)

text \<open>
  C8 fails in the code for a service that has resolved. In the test \<^emph>\<open>should throw an
  error if the service has been started\<close>, \<open>serviceB\<close> has resolved when the timer
  callback calls \<^verbatim>\<open>addDependency('serviceB', 'serviceC')\<close>: its key was deleted from
  \<^verbatim>\<open>starting\<close>, so the call does not throw and appends the dependency.
\<close>

theorem addDependency_on_resolved_service:
  "has_key ''serviceB'' (resolved started_test_state)
   \<and> ''serviceB'' \<notin> starting started_test_state
   \<and> (case addDependency ''serviceB'' ''serviceC'' None started_test_state of
        Inl e \<Rightarrow> None
      | Inr s' \<Rightarrow> map_option dependencies (services s' ''serviceB''))
     = Some (DepList [''serviceA'', ''serviceC''])"
  by code_simp

section \<open>Shutdown\<close>

lemma shutdown_fire_done:
  "result sh = Shutdown_done \<Longrightarrow> result (shutdown_fire ev sh) = Shutdown_done"
  by (cases ev) (simp_all add: finish_def)

lemma shutdown_run_done:
  "result sh = Shutdown_done \<Longrightarrow> result (shutdown_run evs sh) = Shutdown_done"
  unfolding shutdown_run_def
  by (induction evs arbitrary: sh) (simp_all add: shutdown_fire_done)

lemma fulfil_all_waiting:
  "result sh = Shutdown_pending \<Longrightarrow> waiting sh \<noteq> {} \<Longrightarrow> waiting sh \<subseteq> set names \<Longrightarrow>
     result (fold shutdown_fire (map Teardown_fulfilled names) sh) = Shutdown_done"
proof (induction names arbitrary: sh)
  case Nil
  then show ?case by simp
next
  case (Cons name names)
  show ?case
  proof (cases "name \<in> waiting sh")
    case False
    with Cons.prems have "waiting sh \<subseteq> set names" by auto
    with Cons.IH [of sh] Cons.prems False show ?thesis by simp
  next
    case True
    show ?thesis
    proof (cases "waiting sh - {name} = {}")
      case True
      have "result (shutdown_fire (Teardown_fulfilled name) sh) = Shutdown_done"
        using \<open>name \<in> waiting sh\<close> True Cons.prems(1) by (simp add: finish_def)
      from shutdown_run_done [OF this, of "map Teardown_fulfilled names"]
      show ?thesis by (simp add: shutdown_run_def)
    next
      case False
      let ?sh = "sh\<lparr>waiting := waiting sh - {name}\<rparr>"
      have "result (fold shutdown_fire (map Teardown_fulfilled names) ?sh) = Shutdown_done"
        using Cons.prems False by (intro Cons.IH) auto
      with \<open>name \<in> waiting sh\<close> False show ?thesis by simp
    qed
  qed
qed

lemma started_D_state:
  "promise (started_D a b) = Some (Resolved [(''A'', or_empty a), (''B'', or_empty b)])"
  "started (started_D a b)"
  "teardown (started_D a b) = [(''A'', shutdown_or_noop a), (''B'', shutdown_or_noop b)]"
  by (simp_all add: started_D_def scenario_D_def plain_module_def init_def execute_def
      checkConstraints_def fillIgnored_def cleanAwaiting_def nextRound_def
      checkDependencies_def no_dependencies_def check_one_def startService_def
      obtainModule_def load_def obtainDepenedcies_def round_end_def settle_def reject_def
      splice_indexOf_def has_key_def run_def complete_def loop.simps)

lemma call_teardowns_two:
  assumes "\<forall>e. ca \<noteq> Raises e" "\<forall>e. cb \<noteq> Raises e"
  shows "call_teardowns [(na, ca), (nb, cb)] = ([na, nb], None)"
  using assms by (cases ca; cases cb) simp_all

text \<open>
  C5, as the code has it. In scenario D, whatever \<open>A\<close> and \<open>B\<close> produce, the run
  succeeds once \<open>A\<close> and then \<open>B\<close> are fulfilled. When neither teardown action throws,
  \<^verbatim>\<open>shutdown\<close> calls the action of \<open>A\<close> first and the action of \<open>B\<close> second (the order
  in which the services resolved), and its promise is fulfilled as soon as every
  deferred action has been fulfilled, provided the timer has not fired before; the
  events after that change nothing.
\<close>

theorem shutdown_calls_teardowns_in_resolution_order:
  assumes "\<forall>e. shutdown_or_noop a \<noteq> Raises e" and "\<forall>e. shutdown_or_noop b \<noteq> Raises e"
  shows "promise (started_D a b) = Some (Resolved [(''A'', or_empty a), (''B'', or_empty b)])
    \<and> fst (shutdown (started_D a b)) = [''A'', ''B'']
    \<and> (\<exists>sh. snd (shutdown (started_D a b)) = Inr sh
         \<and> (waiting sh \<subseteq> set names \<longrightarrow>
              result (shutdown_run (map Teardown_fulfilled names @ later) sh) = Shutdown_done))"
proof -
  let ?td = "teardown (started_D a b)"
  let ?sh = "\<lparr> waiting = deferred ?td,
      result = (if deferred ?td = {} then Shutdown_done else Shutdown_pending) \<rparr>"
  have calls: "call_teardowns ?td = ([''A'', ''B''], None)"
    unfolding started_D_state(3) by (rule call_teardowns_two [OF assms])
  then have sd: "shutdown (started_D a b) = ([''A'', ''B''], Inr ?sh)"
    by (simp add: shutdown_def started_D_state(2))
  have "result (shutdown_run (map Teardown_fulfilled names @ later) ?sh) = Shutdown_done"
    if sub: "waiting ?sh \<subseteq> set names"
  proof -
    have "result (fold shutdown_fire (map Teardown_fulfilled names) ?sh) = Shutdown_done"
    proof (cases "deferred ?td = {}")
      case True
      then have "result ?sh = Shutdown_done" by simp
      from shutdown_run_done [OF this] show ?thesis by (simp add: shutdown_run_def)
    next
      case False
      then show ?thesis using sub by (intro fulfil_all_waiting) simp_all
    qed
    from shutdown_run_done [of "fold shutdown_fire (map Teardown_fulfilled names) ?sh" later] this
    show ?thesis by (simp add: shutdown_run_def)
  qed
  with sd started_D_state(1) show ?thesis by simp
qed

theorem shutdown_calls_teardowns_in_resolution_order_witness:
  "promise (started_D (Truthy ''moduleA'' (Some Async)) (Truthy ''moduleB'' (Some Async)))
     = Some (Resolved [(''A'', Truthy ''moduleA'' (Some Async)),
                       (''B'', Truthy ''moduleB'' (Some Async))])
   \<and> fst (shutdown (started_D (Truthy ''moduleA'' (Some Async))
        (Truthy ''moduleB'' (Some Async)))) = [''A'', ''B'']
   \<and> (\<exists>sh. snd (shutdown (started_D (Truthy ''moduleA'' (Some Async))
          (Truthy ''moduleB'' (Some Async)))) = Inr sh
        \<and> waiting sh \<subseteq> set [''B'', ''A'']
        \<and> result (shutdown_run (map Teardown_fulfilled [''B'', ''A''] @ [Shutdown_timer]) sh)
            = Shutdown_done)"
proof -
  let ?a = "Truthy ''moduleA'' (Some Async)" and ?b = "Truthy ''moduleB'' (Some Async)"
  have a: "\<forall>e. shutdown_or_noop ?a \<noteq> Raises e" and b: "\<forall>e. shutdown_or_noop ?b \<noteq> Raises e"
    by simp_all
  from shutdown_calls_teardowns_in_resolution_order [OF a b, of "[''B'', ''A'']" "[Shutdown_timer]"]
  obtain sh where sh: "snd (shutdown (started_D ?a ?b)) = Inr sh"
    "waiting sh \<subseteq> set [''B'', ''A''] \<longrightarrow>
       result (shutdown_run (map Teardown_fulfilled [''B'', ''A''] @ [Shutdown_timer]) sh)
         = Shutdown_done"
    and rest: "promise (started_D ?a ?b) = Some (Resolved [(''A'', or_empty ?a), (''B'', or_empty ?b)])"
      "fst (shutdown (started_D ?a ?b)) = [''A'', ''B'']"
    by blast
  have "sh = \<lparr> waiting = {''A'', ''B''}, result = Shutdown_pending \<rparr>"
    using sh(1) by (simp add: shutdown_def started_D_state deferred_def)
  then have "waiting sh \<subseteq> set [''B'', ''A'']" by simp
  with sh rest show ?thesis by auto
qed

text \<open>
  As stated, C5 fails: with the teardown actions of the test, \<^verbatim>\<open>shutdown\<close> calls the
  action of \<open>A\<close> before the action of \<open>B\<close>.
\<close>

theorem shutdown_order_counterexample:
  "promise (started_D (Truthy ''moduleA'' (Some Sync)) (Truthy ''moduleB'' (Some Sync)))
     = Some (Resolved [(''A'', Truthy ''moduleA'' (Some Sync)),
                       (''B'', Truthy ''moduleB'' (Some Sync))])
   \<and> shutdown (started_D (Truthy ''moduleA'' (Some Sync)) (Truthy ''moduleB'' (Some Sync)))
     = ([''A'', ''B''], Inr \<lparr> waiting = {}, result = Shutdown_done \<rparr>)"
  by code_simp

section \<open>The ignore flag after execute\<close>

lemma clear_flags_eq_iff:
  "clear_flags s1 = clear_flags s2 \<longleftrightarrow>
     (\<forall>k. map_option (with_ignore False) (services s1 k)
          = map_option (with_ignore False) (services s2 k))
     \<and> awaiting s1 = awaiting s2 \<and> ignored s1 = ignored s2 \<and> starting s1 = starting s2
     \<and> resolved s1 = resolved s2 \<and> teardown s1 = teardown s2 \<and> promise s1 = promise s2
     \<and> started s1 = started s2 \<and> executed s1 = executed s2 \<and> inflight s1 = inflight s2
     \<and> timers s1 = timers s2 \<and> invoked s1 = invoked s2"
  by (cases s1; cases s2) (auto simp: clear_flags_def fun_eq_iff)

lemma with_ignore_eq:
  "with_ignore False a = with_ignore False b \<longleftrightarrow>
     dependencies a = dependencies b \<and> module a = module b \<and> path a = path b"
  by (cases a; cases b) simp

lemma same_services:
  assumes "clear_flags s1 = clear_flags s2"
  shows "services s1 k = None \<longleftrightarrow> services s2 k = None"
    and "services s1 k = Some a \<Longrightarrow> services s2 k = Some b \<Longrightarrow>
      with_ignore False a = with_ignore False b"
proof -
  from assms have e: "map_option (with_ignore False) (services s1 k)
      = map_option (with_ignore False) (services s2 k)"
    by (simp add: clear_flags_eq_iff)
  then show "services s1 k = None \<longleftrightarrow> services s2 k = None"
    by (cases "services s1 k"; cases "services s2 k") simp_all
  from e show "services s1 k = Some a \<Longrightarrow> services s2 k = Some b \<Longrightarrow>
      with_ignore False a = with_ignore False b" by simp
qed

lemma same_settle:
  "clear_flags s1 = clear_flags s2 \<Longrightarrow> clear_flags (settle out s1) = clear_flags (settle out s2)"
  "clear_flags s1 = clear_flags s2 \<Longrightarrow> clear_flags (reject e s1) = clear_flags (reject e s2)"
  by (simp_all add: clear_flags_eq_iff settle_def reject_def)

lemma same_addService:
  assumes "clear_flags s1 = clear_flags s2"
    and "with_ignore False spec1 = with_ignore False spec2"
  shows "case (addService name spec1 s1, addService name spec2 s2) of
           (Inl e1, Inl e2) \<Rightarrow> e1 = e2
         | (Inr a, Inr b) \<Rightarrow> clear_flags a = clear_flags b
         | _ \<Rightarrow> False"
  using assms same_services(1) [OF assms(1), of name]
  by (auto simp: addService_def clear_flags_eq_iff)

lemma with_ignore_with_dependencies:
  "with_ignore False a = with_ignore False b \<Longrightarrow>
     with_ignore False (with_dependencies d a) = with_ignore False (with_dependencies d b)"
  by (cases a; cases b) simp

lemma same_addDependency:
  assumes "clear_flags s1 = clear_flags s2"
  shows "case (addDependency name d al s1, addDependency name d al s2) of
           (Inl e1, Inl e2) \<Rightarrow> e1 = e2
         | (Inr a, Inr b) \<Rightarrow> clear_flags a = clear_flags b
         | _ \<Rightarrow> False"
proof (cases "services s1 name")
  case None
  with same_services(1) [OF assms, of name] show ?thesis
    by (simp add: addDependency_def)
next
  case (Some a)
  with same_services(1) [OF assms, of name] obtain b where b: "services s2 name = Some b"
    by auto
  from same_services(2) [OF assms Some b] have ab: "with_ignore False a = with_ignore False b" .
  then have deps: "dependencies a = dependencies b" by (simp add: with_ignore_eq)
  from assms have st: "starting s1 = starting s2" by (simp add: clear_flags_eq_iff)
  show ?thesis
    using Some b deps st assms with_ignore_with_dependencies [OF ab]
    by (auto simp: addDependency_def clear_flags_eq_iff split: deps.splits)
qed

lemma same_do_call:
  assumes "clear_flags s1 = clear_flags s2"
  shows "case (do_call c s1, do_call c s2) of
           (Inl e1, Inl e2) \<Rightarrow> e1 = e2
         | (Inr a, Inr b) \<Rightarrow> clear_flags a = clear_flags b
         | _ \<Rightarrow> False"
proof (cases c)
  case (AddService name spec)
  with same_addService [OF assms refl, of name spec] show ?thesis by simp
next
  case (AddDependency name d al)
  with same_addDependency [OF assms, of name d al] show ?thesis by simp
qed

lemma same_run_calls:
  "clear_flags s1 = clear_flags s2 \<Longrightarrow>
     fst (run_calls cs s1) = fst (run_calls cs s2)
     \<and> clear_flags (snd (run_calls cs s1)) = clear_flags (snd (run_calls cs s2))"
proof (induction cs arbitrary: s1 s2)
  case Nil
  then show ?case by simp
next
  case (Cons c cs)
  show ?case
  proof (cases "do_call c s1")
    case (Inl e1)
    with same_do_call [OF Cons.prems, of c] obtain e2 where "do_call c s2 = Inl e2" "e1 = e2"
      by (cases "do_call c s2") simp_all
    with Inl Cons.prems show ?thesis by simp
  next
    case (Inr t1)
    with same_do_call [OF Cons.prems, of c] obtain t2
      where t2: "do_call c s2 = Inr t2" "clear_flags t1 = clear_flags t2"
      by (cases "do_call c s2") simp_all
    from Cons.IH [OF t2(2)] Inr t2(1) show ?thesis by simp
  qed
qed

lemma same_check_one:
  assumes "clear_flags (snd acc1) = clear_flags (snd acc2)" "fst acc1 = fst acc2"
  shows "fst (check_one name d acc1) = fst (check_one name d acc2)
     \<and> clear_flags (snd (check_one name d acc1)) = clear_flags (snd (check_one name d acc2))"
proof -
  from assms(1) have f: "resolved (snd acc1) = resolved (snd acc2)"
    "ignored (snd acc1) = ignored (snd acc2)"
    by (simp_all add: clear_flags_eq_iff)
  have n: "services (snd acc1) d = None \<longleftrightarrow> services (snd acc2) d = None"
    by (rule same_services(1) [OF assms(1)])
  have "fst (check_one name d acc1) = fst (check_one name d acc2)"
    unfolding check_one_fst using assms(2) f by simp
  moreover have "clear_flags (snd (check_one name d acc1))
      = clear_flags (snd (check_one name d acc2))"
  proof (cases "d \<in> set (ignored (snd acc2))")
    case True
    with f have "snd (check_one name d acc1) = reject (IgnoredDependency d name) (snd acc1)"
      "snd (check_one name d acc2) = reject (IgnoredDependency d name) (snd acc2)"
      by (simp_all add: check_one_snd)
    then show ?thesis by (simp only: same_settle(2) [OF assms(1)])
  next
    case ni: False
    show ?thesis
    proof (cases "services (snd acc2) d = None")
      case True
      with ni f n
      have "snd (check_one name d acc1) = reject (UnknownDependency d name) (snd acc1)"
        "snd (check_one name d acc2) = reject (UnknownDependency d name) (snd acc2)"
        by (simp_all add: check_one_snd)
      then show ?thesis by (simp only: same_settle(2) [OF assms(1)])
    next
      case False
      with ni f n have "snd (check_one name d acc1) = snd acc1"
        "snd (check_one name d acc2) = snd acc2"
        by (auto simp add: check_one_snd)
      then show ?thesis by (simp only: assms(1))
    qed
  qed
  ultimately show ?thesis by (rule conjI)
qed

lemma same_fold_check_one:
  "clear_flags (snd acc1) = clear_flags (snd acc2) \<Longrightarrow> fst acc1 = fst acc2 \<Longrightarrow>
     fst (fold (check_one name) ds acc1) = fst (fold (check_one name) ds acc2)
     \<and> clear_flags (snd (fold (check_one name) ds acc1))
       = clear_flags (snd (fold (check_one name) ds acc2))"
proof (induction ds arbitrary: acc1 acc2)
  case Nil
  then show ?case by simp
next
  case (Cons d ds)
  from same_check_one [OF Cons.prems, of name d]
  have "clear_flags (snd (check_one name d acc1)) = clear_flags (snd (check_one name d acc2))"
    and "fst (check_one name d acc1) = fst (check_one name d acc2)" by blast+
  from Cons.IH [OF this] show ?case by (simp only: fold_simps)
qed

lemma with_ignore_names:
  assumes "with_ignore False a = with_ignore False b"
  shows "getDependencyNames a = getDependencyNames b" "no_dependencies a = no_dependencies b"
    "dependency_entries a = dependency_entries b" "load a = load b"
proof -
  obtain d i m p where a: "a = Service d i m p" by (cases a)
  obtain i' where b: "b = Service d i' m p" using assms a by (cases b) simp
  show "getDependencyNames a = getDependencyNames b" unfolding a b by (cases d) simp_all
  show "no_dependencies a = no_dependencies b" unfolding a b by (simp add: no_dependencies_def)
  show "dependency_entries a = dependency_entries b" unfolding a b by (cases d) simp_all
  show "load a = load b" unfolding a b by (simp add: load_def)
qed

lemma same_checkDependencies:
  assumes "clear_flags s1 = clear_flags s2" "with_ignore False a = with_ignore False b"
  shows "fst (checkDependencies name a s1) = fst (checkDependencies name b s2)
     \<and> clear_flags (snd (checkDependencies name a s1))
       = clear_flags (snd (checkDependencies name b s2))"
proof (cases "no_dependencies b")
  case True
  with with_ignore_names(2) [OF assms(2)] assms(1) show ?thesis
    by (simp add: checkDependencies_def)
next
  case False
  have "fst (fold (check_one name) (getDependencyNames b) (True, s1))
      = fst (fold (check_one name) (getDependencyNames b) (True, s2))
    \<and> clear_flags (snd (fold (check_one name) (getDependencyNames b) (True, s1)))
      = clear_flags (snd (fold (check_one name) (getDependencyNames b) (True, s2)))"
    by (rule same_fold_check_one) (simp_all add: assms(1))
  with False with_ignore_names(1,2) [OF assms(2)] show ?thesis
    by (simp add: checkDependencies_def)
qed

lemma same_invoke:
  assumes "clear_flags s1 = clear_flags s2"
  shows "clear_flags (invoke name imports m s1) = clear_flags (invoke name imports m s2)"
proof (cases m)
  case (Callable cs out)
  let ?a = "s1\<lparr>invoked := invoked s1 @ [(name, imports)]\<rparr>"
  let ?b = "s2\<lparr>invoked := invoked s2 @ [(name, imports)]\<rparr>"
  have "clear_flags ?a = clear_flags ?b" using assms by (simp add: clear_flags_eq_iff)
  from same_run_calls [OF this, of cs]
  have r: "fst (run_calls cs ?a) = fst (run_calls cs ?b)"
    "clear_flags (snd (run_calls cs ?a)) = clear_flags (snd (run_calls cs ?b))" by simp_all
  obtain ra sa where a: "run_calls cs ?a = (ra, sa)" by (cases "run_calls cs ?a")
  obtain rb sb where b: "run_calls cs ?b = (rb, sb)" by (cases "run_calls cs ?b")
  from r a b have eq: "ra = rb" "clear_flags sa = clear_flags sb" by simp_all
  then have "clear_flags (sa\<lparr>inflight := insert name (inflight sa)\<rparr>)
      = clear_flags (sb\<lparr>inflight := insert name (inflight sb)\<rparr>)"
    by (simp add: clear_flags_eq_iff)
  with Callable a b eq show ?thesis
    by (auto intro: same_settle split: option.splits outcome_of_call.splits)
qed (auto intro: same_settle assms)

lemma same_startService:
  assumes "clear_flags s1 = clear_flags s2" "with_ignore False a = with_ignore False b"
  shows "clear_flags (startService name a s1) = clear_flags (startService name b s2)"
proof -
  have l: "load a = load b" by (rule with_ignore_names(4) [OF assms(2)])
  have imp: "obtainDepenedcies a s1 = obtainDepenedcies b s2"
    using assms(1) with_ignore_names(3) [OF assms(2)]
    by (simp add: obtainDepenedcies_def clear_flags_eq_iff)
  let ?u = "\<lambda>s. s\<lparr>starting := insert name (starting s),
      awaiting := splice_indexOf name (awaiting s), timers := insert name (timers s)\<rparr>"
  have u: "clear_flags (?u s1) = clear_flags (?u s2)"
    using assms(1) by (simp add: clear_flags_eq_iff)
  show ?thesis
  proof (cases "load b")
    case (Load_throws e)
    then have "startService name a s1 = reject (ModuleLoadError name e) s1"
      "startService name b s2 = reject (ModuleLoadError name e) s2"
      by (simp_all add: startService_def obtainModule_def l)
    then show ?thesis by (simp only: same_settle(2) [OF assms(1)])
  next
    case (Exports m)
    show ?thesis
    proof (cases "truthy m")
      case False
      with Exports have "startService name a s1 = s1" "startService name b s2 = s2"
        by (simp_all add: startService_def obtainModule_def l)
      then show ?thesis by (simp only: assms(1))
    next
      case True
      with Exports have "startService name a s1 = invoke name (obtainDepenedcies b s2) m (?u s1)"
        "startService name b s2 = invoke name (obtainDepenedcies b s2) m (?u s2)"
        by (simp_all add: startService_def obtainModule_def l imp)
      then show ?thesis by (simp only: same_invoke [OF u])
    qed
  qed
qed

lemma same_loop:
  "clear_flags s1 = clear_flags s2 \<Longrightarrow>
     fst (loop i n s1) = fst (loop i n s2)
     \<and> clear_flags (snd (loop i n s1)) = clear_flags (snd (loop i n s2))"
proof (induction i n s1 arbitrary: s2 rule: loop.induct)
  case (1 i n s1)
  from "1.prems" have aw: "awaiting s1 = awaiting s2" by (simp add: clear_flags_eq_iff)
  show ?case
  proof (cases "i < length (awaiting s1)")
    case False
    with aw "1.prems" show ?thesis
      by (subst (1 2) loop.simps, subst (1 2) loop.simps) simp
  next
    case i: True
    let ?name = "awaiting s1 ! i"
    show ?thesis
    proof (cases "services s1 ?name")
      case None
      with same_services(1) [OF "1.prems", of ?name] have "services s2 ?name = None" by simp
      with None i aw "1.prems" show ?thesis
        by (subst (1 2) loop.simps, subst (1 2) loop.simps) simp
    next
      case (Some a)
      with same_services(1) [OF "1.prems", of ?name] obtain b
        where b: "services s2 ?name = Some b" by auto
      have ab: "with_ignore False a = with_ignore False b"
        by (rule same_services(2) [OF "1.prems" Some b])
      obtain ok t1 where c1: "checkDependencies ?name a s1 = (ok, t1)"
        by (cases "checkDependencies ?name a s1")
      obtain ok2 t2 where c2: "checkDependencies ?name b s2 = (ok2, t2)"
        by (cases "checkDependencies ?name b s2")
      from same_checkDependencies [OF "1.prems" ab, of ?name] c1 c2
      have ok: "ok2 = ok" and t: "clear_flags t1 = clear_flags t2" by simp_all
      show ?thesis
      proof (cases ok)
        case True
        have "clear_flags (startService ?name a t1) = clear_flags (startService ?name b t2)"
          by (rule same_startService [OF t ab])
        from "1.IH"(1) [OF i Some c1 [symmetric] _ this] True
        have "fst (loop (Suc i) (Suc n) (startService ?name a t1))
            = fst (loop (Suc i) (Suc n) (startService ?name b t2))
          \<and> clear_flags (snd (loop (Suc i) (Suc n) (startService ?name a t1)))
            = clear_flags (snd (loop (Suc i) (Suc n) (startService ?name b t2)))" by simp
        moreover have "loop i n s1 = loop (Suc i) (Suc n) (startService ?name a t1)"
          using i Some c1 True by (subst loop.simps) simp
        moreover have "loop i n s2 = loop (Suc i) (Suc n) (startService ?name b t2)"
          using i Some b c2 True ok aw by (subst loop.simps) simp
        ultimately show ?thesis by simp
      next
        case False
        from "1.IH"(2) [OF i Some c1 [symmetric] _ t] False
        have "fst (loop (Suc i) n t1) = fst (loop (Suc i) n t2)
          \<and> clear_flags (snd (loop (Suc i) n t1)) = clear_flags (snd (loop (Suc i) n t2))"
          by simp
        moreover have "loop i n s1 = loop (Suc i) n t1"
          using i Some c1 False by (subst loop.simps) simp
        moreover have "loop i n s2 = loop (Suc i) n t2"
          using i Some b c2 False ok aw by (subst loop.simps) simp
        ultimately show ?thesis by simp
      qed
    qed
  qed
qed

lemma same_round_end:
  assumes "clear_flags s1 = clear_flags s2"
  shows "clear_flags (round_end n s1) = clear_flags (round_end n s2)"
proof -
  from assms have f: "awaiting s1 = awaiting s2" "starting s1 = starting s2"
    "resolved s1 = resolved s2"
    by (simp_all add: clear_flags_eq_iff)
  have st: "clear_flags (s1\<lparr>started := True\<rparr>) = clear_flags (s2\<lparr>started := True\<rparr>)"
    using assms by (simp add: clear_flags_eq_iff)
  consider "awaiting s2 = [] \<and> starting s2 = {}"
    | "\<not> (awaiting s2 = [] \<and> starting s2 = {})" "n = 0 \<and> starting s2 = {}"
    | "\<not> (awaiting s2 = [] \<and> starting s2 = {})" "\<not> (n = 0 \<and> starting s2 = {})"
    by blast
  then show ?thesis
  proof cases
    case 1
    then have "round_end n s1 = settle (Resolved (resolved s2)) (s1\<lparr>started := True\<rparr>)"
      "round_end n s2 = settle (Resolved (resolved s2)) (s2\<lparr>started := True\<rparr>)"
      by (simp_all add: round_end_def f)
    then show ?thesis by (simp only: same_settle(1) [OF st])
  next
    case 2
    then have "round_end n s1 = reject (CircularDependency (awaiting s2)) s1"
      "round_end n s2 = reject (CircularDependency (awaiting s2)) s2"
      by (simp_all add: round_end_def f)
    then show ?thesis by (simp only: same_settle(2) [OF assms])
  next
    case 3
    then have "round_end n s1 = s1" "round_end n s2 = s2"
      by (auto simp add: round_end_def f)
    then show ?thesis by (simp only: assms)
  qed
qed

lemma same_nextRound:
  assumes "clear_flags s1 = clear_flags s2"
  shows "fst (nextRound s1) = fst (nextRound s2)
     \<and> clear_flags (snd (nextRound s1)) = clear_flags (snd (nextRound s2))"
proof -
  obtain r1 t1 where l1: "loop 0 0 s1 = (r1, t1)" by (cases "loop 0 0 s1")
  obtain r2 t2 where l2: "loop 0 0 s2 = (r2, t2)" by (cases "loop 0 0 s2")
  from same_loop [OF assms, of 0 0] l1 l2 have r: "r2 = r1" and t: "clear_flags t1 = clear_flags t2"
    by simp_all
  show ?thesis
  proof (cases r1)
    case None
    with l1 l2 r t show ?thesis by (simp add: nextRound_def)
  next
    case (Some n)
    with l1 l2 r same_round_end [OF t, of n] show ?thesis by (simp add: nextRound_def)
  qed
qed

lemma same_complete:
  assumes "clear_flags s1 = clear_flags s2"
  shows "clear_flags (complete name v s1) = clear_flags (complete name v s2)"
proof -
  let ?u = "\<lambda>s. s\<lparr>timers := timers s - {name}, starting := starting s - {name},
      resolved := AList.update name (or_empty v) (resolved s),
      teardown := AList.update name (shutdown_or_noop v) (teardown s)\<rparr>"
  have u: "clear_flags (?u s1) = clear_flags (?u s2)"
    using assms by (simp add: clear_flags_eq_iff)
  obtain r1 t1 where n1: "nextRound (?u s1) = (r1, t1)" by (cases "nextRound (?u s1)")
  obtain r2 t2 where n2: "nextRound (?u s2) = (r2, t2)" by (cases "nextRound (?u s2)")
  from same_nextRound [OF u] n1 n2 have r: "r2 = r1" and t: "clear_flags t1 = clear_flags t2"
    by simp_all
  show ?thesis
  proof (cases r1)
    case None
    with n1 n2 r t show ?thesis by (simp add: complete_def)
  next
    case (Some e)
    with n1 n2 r same_settle(2) [OF t, of "ServiceStartupError name e"] show ?thesis
      by (simp add: complete_def)
  qed
qed

lemma same_fire:
  assumes "clear_flags s1 = clear_flags s2"
  shows "clear_flags (fire ev s1) = clear_flags (fire ev s2)"
proof -
  from assms have f: "inflight s1 = inflight s2" "timers s1 = timers s2"
    by (simp_all add: clear_flags_eq_iff)
  show ?thesis
  proof (cases ev)
    case (Fulfil name v)
    have "clear_flags (s1\<lparr>inflight := inflight s1 - {name}\<rparr>)
        = clear_flags (s2\<lparr>inflight := inflight s2 - {name}\<rparr>)"
      using assms by (simp add: clear_flags_eq_iff)
    from same_complete [OF this, of name v] Fulfil f assms show ?thesis by simp
  next
    case (Fail name e)
    have "clear_flags (s1\<lparr>inflight := inflight s1 - {name}\<rparr>)
        = clear_flags (s2\<lparr>inflight := inflight s2 - {name}\<rparr>)"
      using assms by (simp add: clear_flags_eq_iff)
    from same_settle(2) [OF this, of "ServiceStartupError name e"] Fail f assms
    show ?thesis by simp
  next
    case (Timer name)
    have "clear_flags (s1\<lparr>timers := timers s1 - {name}\<rparr>)
        = clear_flags (s2\<lparr>timers := timers s2 - {name}\<rparr>)"
      using assms by (simp add: clear_flags_eq_iff)
    from same_settle(2) [OF this, of "StartupTimeout name"] Timer f assms
    show ?thesis by simp
  next
    case (Call c)
    from same_do_call [OF assms, of c] Call assms show ?thesis
      by (cases "do_call c s1"; cases "do_call c s2") simp_all
  qed
qed

lemma same_run:
  "clear_flags s1 = clear_flags s2 \<Longrightarrow> clear_flags (run evs s1) = clear_flags (run evs s2)"
  unfolding run_def
proof (induction evs arbitrary: s1 s2)
  case Nil
  then show ?case by simp
next
  case (Cons ev evs)
  from Cons.IH [OF same_fire [OF Cons.prems, of ev]] show ?case by simp
qed

subsection \<open>The ignored set is written by execute only\<close>

lemma invoke_ignored: "ignored (invoke name imports m s) = ignored s"
proof (cases m)
  case (Callable cs out)
  let ?s0 = "s\<lparr>invoked := invoked s @ [(name, imports)]\<rparr>"
  obtain r s' where run: "run_calls cs ?s0 = (r, s')" by (cases "run_calls cs ?s0")
  from run_calls_frame [OF run] have "ignored s' = ignored s" by simp
  with run Callable show ?thesis
    by (simp split: option.splits outcome_of_call.splits)
qed simp_all

lemma startService_ignored: "ignored (startService name service s) = ignored s"
  by (simp add: startService_def obtainModule_def invoke_ignored split: required.splits)

lemma loop_ignored: "ignored (snd (loop i n s)) = ignored s"
proof -
  have "ignored (snd (loop i n s)) = ig" if "ignored s = ig" for ig
  proof (rule loop_invariant [where P = "\<lambda>s. ignored s = ig"])
    show "ignored s = ig" by (rule that)
  next
    fix i and s :: state and service s1
    assume "ignored s = ig" and "checkDependencies (awaiting s ! i) service s = (True, s1)"
    with checkDependencies_fields(1) [of "awaiting s ! i" service s]
    show "ignored (startService (awaiting s ! i) service s1) = ig"
      by (simp add: startService_ignored)
  next
    fix i and s :: state and service s1
    assume "ignored s = ig" and "checkDependencies (awaiting s ! i) service s = (False, s1)"
    with checkDependencies_fields(1) [of "awaiting s ! i" service s]
    show "ignored s1 = ig" by simp
  qed
  then show ?thesis by simp
qed

lemma nextRound_ignored: "ignored (snd (nextRound s)) = ignored s"
  using loop_ignored [of 0 0 s]
  by (auto simp: nextRound_def round_end_def split: prod.splits option.splits)

lemma complete_ignored: "ignored (complete name v s) = ignored s"
proof -
  let ?s1 = "s\<lparr>timers := timers s - {name}, starting := starting s - {name},
      resolved := AList.update name (or_empty v) (resolved s),
      teardown := AList.update name (shutdown_or_noop v) (teardown s)\<rparr>"
  from nextRound_ignored [of ?s1] show ?thesis
    by (auto simp: complete_def split: prod.splits option.splits)
qed

lemma fire_ignored: "ignored (fire ev s) = ignored s"
  by (cases ev) (auto simp: complete_ignored split: sum.splits dest: do_call_frame(5))

lemma run_ignored: "ignored (run evs s) = ignored s"
  unfolding run_def by (induction evs arbitrary: s) (simp_all add: fire_ignored)

text \<open>
  C10. Once \<^verbatim>\<open>execute\<close> has filled \<^verbatim>\<open>ignored\<close>, nothing reads the flag \<^verbatim>\<open>ignore\<close> of a
  declaration and nothing writes \<^verbatim>\<open>ignored\<close>. From two states that are equal up to the
  flags of their declarations: registering a service with \<^verbatim>\<open>ignore: true\<close> does what
  registering it with \<^verbatim>\<open>ignore: false\<close> does (both fail alike, or both append the name
  to \<^verbatim>\<open>awaiting\<close> and leave \<^verbatim>\<open>ignored\<close> as it was), and the rest of a module body,
  the rest of a round, every round and every sequence of events lead to states that are
  again equal up to the flags: the same \<^verbatim>\<open>awaiting\<close>, \<^verbatim>\<open>starting\<close>, \<^verbatim>\<open>resolved\<close>, calls
  to modules and outcome. So the service registered with the flag is started and
  resolved exactly as without it.
\<close>

theorem ignore_flag_has_no_effect_after_execute:
  assumes "clear_flags s1 = clear_flags s2"
  shows "(case (addService name (Service d True m p) s1,
               addService name (Service d False m p) s2) of
            (Inl e1, Inl e2) \<Rightarrow> e1 = e2
          | (Inr a, Inr b) \<Rightarrow> clear_flags a = clear_flags b \<and> ignored a = ignored s1
              \<and> awaiting a = awaiting s1 @ [name]
          | _ \<Rightarrow> False)
    \<and> fst (run_calls cs s1) = fst (run_calls cs s2)
    \<and> clear_flags (snd (run_calls cs s1)) = clear_flags (snd (run_calls cs s2))
    \<and> fst (loop i n s1) = fst (loop i n s2)
    \<and> clear_flags (snd (loop i n s1)) = clear_flags (snd (loop i n s2))
    \<and> fst (nextRound s1) = fst (nextRound s2)
    \<and> clear_flags (snd (nextRound s1)) = clear_flags (snd (nextRound s2))
    \<and> clear_flags (run evs s1) = clear_flags (run evs s2)
    \<and> ignored (snd (nextRound s1)) = ignored s1
    \<and> ignored (run evs s1) = ignored s1"
proof -
  have add: "case (addService name (Service d True m p) s1,
               addService name (Service d False m p) s2) of
            (Inl e1, Inl e2) \<Rightarrow> e1 = e2
          | (Inr a, Inr b) \<Rightarrow> clear_flags a = clear_flags b \<and> ignored a = ignored s1
              \<and> awaiting a = awaiting s1 @ [name]
          | _ \<Rightarrow> False"
  proof (cases "addService name (Service d True m p) s1")
    case (Inl e1)
    with same_addService [OF assms, of "Service d True m p" "Service d False m p" name]
    show ?thesis by (cases "addService name (Service d False m p) s2") simp_all
  next
    case (Inr a)
    then have "ignored a = ignored s1" "awaiting a = awaiting s1 @ [name]"
      by (auto simp: addService_def split: if_splits)
    with Inr same_addService [OF assms, of "Service d True m p" "Service d False m p" name]
    show ?thesis by (cases "addService name (Service d False m p) s2") simp_all
  qed
  from add same_run_calls [OF assms, of cs] same_loop [OF assms, of i n]
    same_nextRound [OF assms] same_run [OF assms, of evs]
    nextRound_ignored [of s1] run_ignored [of evs s1]
  show ?thesis by blast
qed

theorem ignore_flag_has_no_effect_after_execute_witness:
  "((case (addService ''E'' (Service NoDeps True plain_module None) (flagged_state True),
           addService ''E'' (Service NoDeps False plain_module None) (flagged_state False)) of
       (Inl e1, Inl e2) \<Rightarrow> e1 = e2
     | (Inr a, Inr b) \<Rightarrow> clear_flags a = clear_flags b
         \<and> ignored a = ignored (flagged_state True)
         \<and> awaiting a = awaiting (flagged_state True) @ [''E'']
     | _ \<Rightarrow> False)
    \<and> fst (run_calls [] (flagged_state True)) = fst (run_calls [] (flagged_state False))
    \<and> clear_flags (snd (run_calls [] (flagged_state True)))
        = clear_flags (snd (run_calls [] (flagged_state False)))
    \<and> fst (loop 0 0 (flagged_state True)) = fst (loop 0 0 (flagged_state False))
    \<and> clear_flags (snd (loop 0 0 (flagged_state True)))
        = clear_flags (snd (loop 0 0 (flagged_state False)))
    \<and> fst (nextRound (flagged_state True)) = fst (nextRound (flagged_state False))
    \<and> clear_flags (snd (nextRound (flagged_state True)))
        = clear_flags (snd (nextRound (flagged_state False)))
    \<and> clear_flags (run [Fulfil ''A'' Falsy, Fulfil ''D'' Falsy] (flagged_state True))
        = clear_flags (run [Fulfil ''A'' Falsy, Fulfil ''D'' Falsy] (flagged_state False))
    \<and> ignored (snd (nextRound (flagged_state True))) = ignored (flagged_state True)
    \<and> ignored (run [Fulfil ''A'' Falsy, Fulfil ''D'' Falsy] (flagged_state True))
        = ignored (flagged_state True))
   \<and> promise (run [Fulfil ''A'' (Truthy ''moduleA'' None), Fulfil ''D'' (Truthy ''moduleD'' None)]
        (flagged_state True))
     = Some (Resolved [(''A'', Truthy ''moduleA'' None), (''D'', Truthy ''moduleD'' None)])
   \<and> promise (run [Fulfil ''B'' (Truthy ''moduleB'' None), Fulfil ''A'' (Truthy ''moduleA'' None),
                   Fulfil ''D'' (Truthy ''moduleD'' None)]
        (snd (execute (init disjoint_config))))
     = Some (Resolved [(''B'', Truthy ''moduleB'' None), (''A'', Truthy ''moduleA'' None),
                       (''D'', Truthy ''moduleD'' None)])"
proof -
  have n: "services first_round_state ''D'' = None" by code_simp
  have st: "\<not> started first_round_state" by code_simp
  have fl: "flagged_state b = first_round_state
      \<lparr>services := (services first_round_state)(''D'' \<mapsto> Service NoDeps b plain_module None),
       awaiting := awaiting first_round_state @ [''D'']\<rparr>" for b
    by (simp add: flagged_state_def addService_def n st)
  have h: "clear_flags (flagged_state True) = clear_flags (flagged_state False)"
    unfolding fl by (simp add: clear_flags_eq_iff)
  have b: "promise (run [Fulfil ''A'' (Truthy ''moduleA'' None),
        Fulfil ''D'' (Truthy ''moduleD'' None)] (flagged_state True))
     = Some (Resolved [(''A'', Truthy ''moduleA'' None), (''D'', Truthy ''moduleD'' None)])"
    by code_simp
  have c: "promise (run [Fulfil ''B'' (Truthy ''moduleB'' None),
        Fulfil ''A'' (Truthy ''moduleA'' None), Fulfil ''D'' (Truthy ''moduleD'' None)]
        (snd (execute (init disjoint_config))))
     = Some (Resolved [(''B'', Truthy ''moduleB'' None), (''A'', Truthy ''moduleA'' None),
                       (''D'', Truthy ''moduleD'' None)])"
    by code_simp
  show ?thesis
    by (rule conjI [OF ignore_flag_has_no_effect_after_execute [OF h] conjI [OF b c]])
qed

end
